theory Spec2Isabelle
  imports Main "HOL-Library.Word"
begin

section \<open>The data of src/src/memory.c\<close>

text \<open>
  The target is taken to be LP64: \<open>size_t\<close> and \<open>unsigned long\<close> are 64-bit unsigned
  integers whose arithmetic wraps around. A pointer is an address; \<open>NULL\<close> is address 0.
\<close>

type_synonym addr = nat
type_synonym size_t = "64 word"
type_synonym ulong = "64 word"

abbreviation NULL :: addr where
  "NULL \<equiv> 0"

text \<open>
  \<open>struct HeapInfo\<close> (lines 40-45). The field \<open>size\<close> is called \<open>size_bytes\<close> here,
  because \<open>size\<close> is a constant of HOL.
\<close>

record HeapInfo =
  "next" :: addr
  prev :: addr
  ptr :: addr
  size_bytes :: size_t

text \<open>\<open>struct MemInfo\<close> (lines 48-54).\<close>

record MemInfo =
  allocations_count :: ulong
  deallocations_count :: ulong
  stack_memory_added :: size_t
  heap_memory_added :: size_t
  heap_memory_freed :: size_t

text \<open>
  The C library is external. Its answers are arguments of the operations below, and the
  calls that concern the caller's blocks are recorded, most recent first, each with its
  arguments and (for the allocating calls) the answer it gave. The record says that a
  call is made; when C defines a call of \<open>free\<close> is said by \<open>free_defined\<close> below.
\<close>

datatype sys_call =
  Malloc size_t addr
  | Calloc size_t size_t addr
  | Realloc addr size_t addr
  | Free addr
  | Memset addr size_t

text \<open>
  The program state: the two static variables \<open>memory_data\<close> and \<open>imp_heap\<close> (lines 58-59),
  the \<open>HeapInfo\<close> objects that are currently allocated (\<open>malloc (sizeof (HeapInfo))\<close> adds
  one at the address the allocator answers, \<open>free (freenode)\<close> disposes of one), and the
  record of the library calls. The diagnostic lines printed to \<open>stderr\<close> are left out: they
  do not touch any of this.
\<close>

type_synonym heap = "addr \<rightharpoonup> HeapInfo"

record state =
  memory_data :: MemInfo
  imp_heap :: addr
  store :: heap
  libc :: "sys_call list"

text \<open>
  What C leaves undefined and the program can run into: writing through the \<open>NULL\<close> that
  \<open>malloc (sizeof (HeapInfo))\<close> may answer, reading or writing a \<open>HeapInfo\<close> at an
  address where none is allocated, and calling \<open>free\<close> on an address that is neither
  \<open>NULL\<close> nor a block that the allocator has handed out to the caller and not taken back.
\<close>

datatype error = NullDeref | BadDeref | BadFree

definition init :: state where
  "init = \<lparr>memory_data = \<lparr>allocations_count = 0, deallocations_count = 0,
              stack_memory_added = 0, heap_memory_added = 0, heap_memory_freed = 0\<rparr>,
            imp_heap = NULL, store = Map.empty, libc = []\<rparr>"

section \<open>The operations\<close>

text \<open>
  The functions keep the names of the source without the leading underscore; these are
  also the names of the macros of src/include/memory.h that call them. The build is the
  one with \<open>CUTILS_MEMORY_DEBUG\<close>, which memory.c defines; the two extra arguments
  \<open>line\<close> and \<open>file\<close> are only printed and are left out.
\<close>

text \<open>\<open>_mem_stack_init\<close> (lines 63-82). \<open>memset\<close> returns its first argument.\<close>

definition mem_stack_init :: "addr \<Rightarrow> size_t \<Rightarrow> state \<Rightarrow> int \<times> state" where
  "mem_stack_init p sz s =
     (if p \<noteq> NULL then
        (let s1 = s\<lparr>libc := Memset p sz # libc s\<rparr> in
         if p \<noteq> NULL then
           (1, s1\<lparr>memory_data := (memory_data s1)
                   \<lparr>stack_memory_added := stack_memory_added (memory_data s1) + sz\<rparr>\<rparr>)
         else (0, s1))
      else (0, s))"

text \<open>
  Lines 100-115, which lines 142-157 and 184-199 repeat word for word: the new
  \<open>HeapInfo\<close> is allocated at \<open>n\<close> (the answer of \<open>malloc (sizeof (HeapInfo))\<close>, which the
  code does not check), filled in, and made the tail. The writes happen in the order of
  the source.
\<close>

definition link_node :: "addr \<Rightarrow> size_t \<Rightarrow> addr \<Rightarrow> state \<Rightarrow> error + state" where
  "link_node memptr sz n s =
     (if imp_heap s = NULL then
        (if n = NULL then Inl NullDeref
         else Inr (s\<lparr>imp_heap := n,
                     store := (store s)(n \<mapsto>
                       \<lparr>next = NULL, prev = NULL, ptr = memptr, size_bytes = sz\<rparr>)\<rparr>))
      else
        (if n = NULL then Inl NullDeref
         else
           (let h1 = (store s)(n \<mapsto>
                       \<lparr>next = NULL, prev = imp_heap s, ptr = memptr, size_bytes = sz\<rparr>)
            in case h1 (imp_heap s) of
                 None \<Rightarrow> Inl BadDeref
               | Some t \<Rightarrow> Inr (s\<lparr>imp_heap := n,
                                  store := h1(imp_heap s \<mapsto> t\<lparr>next := n\<rparr>)\<rparr>))))"

text \<open>Lines 97-98, 139-140 and 181-182.\<close>

definition count_allocation :: "size_t \<Rightarrow> state \<Rightarrow> state" where
  "count_allocation sz s =
     s\<lparr>memory_data := (memory_data s)
         \<lparr>allocations_count := allocations_count (memory_data s) + 1,
          heap_memory_added := heap_memory_added (memory_data s) + sz\<rparr>\<rparr>"

text \<open>
  \<open>_mem_alloc\<close> (lines 86-125); \<open>m\<close> is the answer of \<open>malloc (size)\<close> and \<open>n\<close> the answer of
  \<open>malloc (sizeof (HeapInfo))\<close>. The result is the returned pointer and the new state.
\<close>

definition mem_alloc :: "size_t \<Rightarrow> addr \<Rightarrow> addr \<Rightarrow> state \<Rightarrow> error + addr \<times> state" where
  "mem_alloc sz m n s =
     (if sz > 0 then
        (let s1 = s\<lparr>libc := Malloc sz m # libc s\<rparr> in
         if m \<noteq> NULL then
           (case link_node m sz n (count_allocation sz s1) of
              Inl e \<Rightarrow> Inl e
            | Inr s2 \<Rightarrow> Inr (m, s2))
         else Inr (m, s1))
      else Inr (NULL, s))"

text \<open>
  \<open>_mem_calloc\<close> (lines 129-167); \<open>num\<close> is a C \<open>int\<close> (32 bits, two's
  complement), converted to \<open>size_t\<close> with sign extension when it is passed to \<open>calloc\<close>.
\<close>

definition mem_calloc ::
  "32 word \<Rightarrow> size_t \<Rightarrow> addr \<Rightarrow> addr \<Rightarrow> state \<Rightarrow> error + addr \<times> state" where
  "mem_calloc num sz m n s =
     (if sz > 0 then
        (let s1 = s\<lparr>libc := Calloc (scast num) sz m # libc s\<rparr> in
         if m \<noteq> NULL then
           (case link_node m sz n (count_allocation sz s1) of
              Inl e \<Rightarrow> Inl e
            | Inr s2 \<Rightarrow> Inr (m, s2))
         else Inr (m, s1))
      else Inr (NULL, s))"

text \<open>\<open>_mem_realloc\<close> (lines 171-209); \<open>m\<close> is the answer of \<open>realloc (ptr, size)\<close>.\<close>

definition mem_realloc ::
  "addr \<Rightarrow> size_t \<Rightarrow> addr \<Rightarrow> addr \<Rightarrow> state \<Rightarrow> error + addr \<times> state" where
  "mem_realloc p sz m n s =
     (if sz > 0 then
        (let s1 = s\<lparr>libc := Realloc p sz m # libc s\<rparr> in
         if m \<noteq> NULL then
           (case link_node m sz n (count_allocation sz s1) of
              Inl e \<Rightarrow> Inl e
            | Inr s2 \<Rightarrow> Inr (m, s2))
         else Inr (m, s1))
      else Inr (p, s))"

text \<open>
  The loop of \<open>_mem_free\<close> (lines 222-229). It returns \<open>free_ret\<close>, \<open>root\<close> and \<open>freenode\<close>
  as they stand when the loop is left; \<open>None\<close> is a loop that never ends.
\<close>

partial_function (option) scan ::
  "heap \<Rightarrow> addr \<Rightarrow> addr \<Rightarrow> (error + int \<times> addr \<times> addr) option" where
  "scan h p root =
     (if root \<noteq> NULL then
        (case h root of
           None \<Rightarrow> Some (Inl BadDeref)
         | Some r \<Rightarrow>
             if ptr r = p then Some (Inr (1, root, root))
             else scan h p (prev r))
      else Some (Inr (0, root, NULL)))"

declare scan.simps [code]

definition set_next :: "addr \<Rightarrow> addr \<Rightarrow> heap \<Rightarrow> error + heap" where
  "set_next a v h = (case h a of None \<Rightarrow> Inl BadDeref | Some r \<Rightarrow> Inr (h(a \<mapsto> r\<lparr>next := v\<rparr>)))"

definition set_prev :: "addr \<Rightarrow> addr \<Rightarrow> heap \<Rightarrow> error + heap" where
  "set_prev a v h = (case h a of None \<Rightarrow> Inl BadDeref | Some r \<Rightarrow> Inr (h(a \<mapsto> r\<lparr>prev := v\<rparr>)))"

text \<open>The body of \<open>if (free_ret)\<close> (lines 232-250).\<close>

definition unlink :: "addr \<Rightarrow> addr \<Rightarrow> state \<Rightarrow> error + state" where
  "unlink root freenode s =
     (case store s root of
        None \<Rightarrow> Inl BadDeref
      | Some r \<Rightarrow>
          (let md = (memory_data s)
                 \<lparr>deallocations_count := deallocations_count (memory_data s) + 1,
                  heap_memory_freed := heap_memory_freed (memory_data s) + size_bytes r\<rparr>
           in case store s freenode of
                None \<Rightarrow> Inl BadDeref
              | Some f \<Rightarrow>
                  (let prev_node = prev f; next_node = next f in
                   case (if prev_node \<noteq> NULL then set_next prev_node next_node (store s)
                         else Inr (store s)) of
                     Inl e \<Rightarrow> Inl e
                   | Inr h1 \<Rightarrow>
                       (case (if next_node \<noteq> NULL then set_prev next_node prev_node h1
                              else Inr h1) of
                          Inl e \<Rightarrow> Inl e
                        | Inr h2 \<Rightarrow>
                            Inr (s\<lparr>memory_data := md,
                                   imp_heap := (if imp_heap s = freenode then prev_node
                                                else imp_heap s),
                                   store := h2(freenode := None)\<rparr>)))))"

text \<open>
  The statements of \<open>_mem_free\<close> (lines 213-259): the scan, the unlinking, then the call
  \<open>free (ptr)\<close> of line 257, made in any case and entered in the record of the library
  calls. Whether C defines that call is not decided here: \<open>mem_free\<close> says what the
  function does where the call is defined, that is for \<open>NULL\<close> and for a block that the
  caller still holds. \<open>mem_free_strict\<close> below adds the contract of \<open>free\<close>.
\<close>

definition mem_free :: "addr \<Rightarrow> state \<Rightarrow> (error + int \<times> state) option" where
  "mem_free p s =
     (case scan (store s) p (imp_heap s) of
        None \<Rightarrow> None
      | Some (Inl e) \<Rightarrow> Some (Inl e)
      | Some (Inr (free_ret, root, freenode)) \<Rightarrow>
          (case (if free_ret \<noteq> 0 then unlink root freenode s else Inr s) of
             Inl e \<Rightarrow> Some (Inl e)
           | Inr s1 \<Rightarrow> Some (Inr (free_ret, s1\<lparr>libc := Free p # libc s1\<rparr>))))"

section \<open>The registry as a list\<close>

text \<open>
  \<open>path h nx p ns q\<close>: following \<open>prev\<close> from \<open>p\<close> visits the allocated records at
  \<open>ns\<close>, in this order, and then arrives at \<open>q\<close>; the \<open>next\<close> of each visited record is
  the record visited just before it, and \<open>nx\<close> for the first.
\<close>

primrec path :: "heap \<Rightarrow> addr \<Rightarrow> addr \<Rightarrow> addr list \<Rightarrow> addr \<Rightarrow> bool" where
  "path h nx p [] q = (p = q)"
| "path h nx p (a # as) q =
     (p = a \<and> a \<noteq> NULL \<and>
      (case h a of None \<Rightarrow> False | Some r \<Rightarrow> next r = nx \<and> path h a (prev r) as q))"

text \<open>
  \<open>registry s ns\<close>: the records of the state are exactly those at \<open>ns\<close>, most recently
  inserted first, linked from the tail \<open>imp_heap\<close> down to a record whose \<open>prev\<close> is \<open>NULL\<close>.
\<close>

definition registry :: "state \<Rightarrow> addr list \<Rightarrow> bool" where
  "registry s ns = (path (store s) NULL (imp_heap s) ns NULL \<and> dom (store s) = set ns)"

text \<open>The address and the size that the record at \<open>a\<close> holds.\<close>

definition block :: "heap \<Rightarrow> addr \<Rightarrow> addr \<times> size_t" where
  "block h a = (case h a of None \<Rightarrow> (NULL, 0) | Some r \<Rightarrow> (ptr r, size_bytes r))"

definition blocks :: "state \<Rightarrow> addr list \<Rightarrow> (addr \<times> size_t) list" where
  "blocks s ns = map (block (store s)) ns"

text \<open>
  The store after the record at \<open>a\<close> has been unlinked from between the newer records
  \<open>ys\<close> and the older records \<open>zs\<close> and disposed of.
\<close>

definition unlinked :: "heap \<Rightarrow> addr \<Rightarrow> addr list \<Rightarrow> addr list \<Rightarrow> heap" where
  "unlinked h a ys zs =
     (let nx = (if ys = [] then NULL else last ys);
          pv = (if zs = [] then NULL else hd zs);
          h1 = (if zs = [] then h else h(pv \<mapsto> (the (h pv))\<lparr>next := nx\<rparr>));
          h2 = (if ys = [] then h1 else h1(nx \<mapsto> (the (h1 nx))\<lparr>prev := pv\<rparr>))
      in h2(a := None))"

section \<open>Sequences of operations\<close>

text \<open>
  A call of one of the five operations, with the answers the allocator gives during it
  (\<open>m\<close> for the caller's block, \<open>n\<close> for the \<open>HeapInfo\<close>), and what the operation returns.
\<close>

datatype call =
  Allocate size_t addr addr
  | Zero_allocate "32 word" size_t addr addr
  | Resize addr size_t addr addr
  | Release addr
  | Stack_init addr size_t

datatype reply = Handle addr | Signal int

fun exec :: "call \<Rightarrow> state \<Rightarrow> (error + reply \<times> state) option" where
  "exec (Allocate sz m n) s =
     (case mem_alloc sz m n s of Inl e \<Rightarrow> Some (Inl e) | Inr (h, s') \<Rightarrow> Some (Inr (Handle h, s')))"
| "exec (Zero_allocate num sz m n) s =
     (case mem_calloc num sz m n s of
        Inl e \<Rightarrow> Some (Inl e) | Inr (h, s') \<Rightarrow> Some (Inr (Handle h, s')))"
| "exec (Resize p sz m n) s =
     (case mem_realloc p sz m n s of
        Inl e \<Rightarrow> Some (Inl e) | Inr (h, s') \<Rightarrow> Some (Inr (Handle h, s')))"
| "exec (Release p) s =
     (case mem_free p s of
        None \<Rightarrow> None | Some (Inl e) \<Rightarrow> Some (Inl e)
      | Some (Inr (f, s')) \<Rightarrow> Some (Inr (Signal f, s')))"
| "exec (Stack_init p sz) s =
     (case mem_stack_init p sz s of (f, s') \<Rightarrow> Some (Inr (Signal f, s')))"

text \<open>Calls one after the other; the run stops at the first one that does not return.\<close>

fun run :: "call list \<Rightarrow> state \<Rightarrow> (error + reply list \<times> state) option" where
  "run [] s = Some (Inr ([], s))"
| "run (c # cs) s =
     (case exec c s of
        None \<Rightarrow> None
      | Some (Inl e) \<Rightarrow> Some (Inl e)
      | Some (Inr (r, s')) \<Rightarrow>
          (case run cs s' of
             None \<Rightarrow> None
           | Some (Inl e) \<Rightarrow> Some (Inl e)
           | Some (Inr (rs, s'')) \<Rightarrow> Some (Inr (r # rs, s''))))"

section \<open>What is assumed of the allocator\<close>

text \<open>
  The caller's blocks that the allocator has handed out and not taken back, read off the
  record of the calls (most recent first). A \<open>realloc\<close> that succeeds takes the old block
  back, one that fails leaves it.
\<close>

fun live :: "sys_call list \<Rightarrow> addr set" where
  "live [] = {}"
| "live (Malloc sz m # cs) = (if m = NULL then live cs else insert m (live cs))"
| "live (Calloc k sz m # cs) = (if m = NULL then live cs else insert m (live cs))"
| "live (Realloc p sz m # cs) = (if m = NULL then live cs else insert m (live cs - {p}))"
| "live (Free p # cs) = live cs - {p}"
| "live (Memset p sz # cs) = live cs"

text \<open>
  The contract of \<open>free\<close>: the call \<open>free (p)\<close> is defined when \<open>p\<close> is \<open>NULL\<close> or a block
  handed out and not taken back. For any other address, a block released before among
  them, C leaves the call undefined (and where the allocator has meanwhile given the
  address to a \<open>HeapInfo\<close>, the call disposes of a record of the registry).
\<close>

definition free_defined :: "addr \<Rightarrow> sys_call list \<Rightarrow> bool" where
  "free_defined p l = (p = NULL \<or> p \<in> live l)"

text \<open>
  \<open>_mem_free\<close> with this contract: where the function gets as far as line 257 and the
  call \<open>free (ptr)\<close> is undefined, the operation has no defined result.
\<close>

definition mem_free_strict :: "addr \<Rightarrow> state \<Rightarrow> (error + int \<times> state) option" where
  "mem_free_strict p s =
     (case mem_free p s of
        None \<Rightarrow> None
      | Some (Inl e) \<Rightarrow> Some (Inl e)
      | Some (Inr (free_ret, s1)) \<Rightarrow>
          if free_defined p (libc s) then Some (Inr (free_ret, s1)) else Some (Inl BadFree))"

text \<open>
  The allocation of a \<open>HeapInfo\<close> is assumed to succeed, at an address where no \<open>HeapInfo\<close>
  is allocated.
\<close>

definition node_ok :: "addr \<Rightarrow> state \<Rightarrow> bool" where
  "node_ok n s = (n \<noteq> NULL \<and> store s n = None)"

text \<open>
  The answers during a call conform: a block that \<open>malloc\<close> or \<open>calloc\<close> hands out is not
  one that is handed out already; \<open>realloc\<close> answers the old address or one that is not
  handed out; either may fail with \<open>NULL\<close>, and then no \<open>HeapInfo\<close> is allocated.
\<close>

fun answer_ok :: "call \<Rightarrow> sys_call list \<Rightarrow> bool" where
  "answer_ok (Allocate sz m n) l = (if sz > 0 \<and> m \<noteq> NULL then m \<notin> live l else True)"
| "answer_ok (Zero_allocate num sz m n) l = (if sz > 0 \<and> m \<noteq> NULL then m \<notin> live l else True)"
| "answer_ok (Resize p sz m n) l =
     (if sz > 0 \<and> m \<noteq> NULL then m = p \<or> m \<notin> live l else True)"
| "answer_ok (Release p) l = True"
| "answer_ok (Stack_init p sz) l = True"

fun record_ok :: "call \<Rightarrow> state \<Rightarrow> bool" where
  "record_ok (Allocate sz m n) s = (if sz > 0 \<and> m \<noteq> NULL then node_ok n s else True)"
| "record_ok (Zero_allocate num sz m n) s = (if sz > 0 \<and> m \<noteq> NULL then node_ok n s else True)"
| "record_ok (Resize p sz m n) s = (if sz > 0 \<and> m \<noteq> NULL then node_ok n s else True)"
| "record_ok (Release p) s = True"
| "record_ok (Stack_init p sz) s = True"

definition conforming :: "call \<Rightarrow> state \<Rightarrow> bool" where
  "conforming c s = (answer_ok c (libc s) \<and> record_ok c s)"

fun conforming_run :: "call list \<Rightarrow> state \<Rightarrow> bool" where
  "conforming_run [] s = True"
| "conforming_run (c # cs) s =
     (conforming c s \<and>
      (case exec c s of Some (Inr (r, s')) \<Rightarrow> conforming_run cs s' | _ \<Rightarrow> True))"

fun is_resize :: "call \<Rightarrow> bool" where
  "is_resize (Resize p sz m n) = True"
| "is_resize c = False"

text \<open>
  The handles that successful allocations have returned and that have not been released
  with a match since, read off the calls and what they returned (oldest first).
\<close>

fun tally :: "call \<times> reply \<Rightarrow> addr set \<Rightarrow> addr set" where
  "tally (Allocate sz m n, Handle h) H = (if h \<noteq> NULL then insert h H else H)"
| "tally (Zero_allocate num sz m n, Handle h) H = (if h \<noteq> NULL then insert h H else H)"
| "tally (Release p, Signal f) H = (if f \<noteq> 0 then H - {p} else H)"
| "tally e H = H"

fun outstanding :: "addr set \<Rightarrow> (call \<times> reply) list \<Rightarrow> addr set" where
  "outstanding H [] = H"
| "outstanding H (e # es) = outstanding (tally e H) es"

text \<open>The bytes that a call adds to \<open>heap_memory_added\<close>, as a number without a bound.\<close>

fun charged :: "call \<Rightarrow> nat" where
  "charged (Allocate sz m n) = (if sz > 0 \<and> m \<noteq> NULL then unat sz else 0)"
| "charged (Zero_allocate num sz m n) = (if sz > 0 \<and> m \<noteq> NULL then unat sz else 0)"
| "charged (Resize p sz m n) = (if sz > 0 \<and> m \<noteq> NULL then unat sz else 0)"
| "charged c = 0"

definition bytes_added :: "call list \<Rightarrow> nat" where
  "bytes_added cs = sum_list (map charged cs)"

section \<open>The operations on the list of blocks\<close>

text \<open>
  What a well-formed registry stands for: the addresses and sizes of its records, most
  recently inserted first, with the counters and the record of the library calls.
\<close>

type_synonym view = "(addr \<times> size_t) list \<times> MemInfo \<times> sys_call list"

definition view :: "state \<Rightarrow> addr list \<Rightarrow> view" where
  "view s ns = (blocks s ns, memory_data s, libc s)"

text \<open>
  The definitions of this section are not translations of the source. They say what a
  call does to the list of blocks, and serve the proofs about sequences of calls: lemma
  \<open>exec_list_exec\<close> below shows that the code, run on a well-formed registry, does
  exactly this.
\<close>

definition counted :: "size_t \<Rightarrow> MemInfo \<Rightarrow> MemInfo" where
  "counted sz md = md\<lparr>allocations_count := allocations_count md + 1,
                       heap_memory_added := heap_memory_added md + sz\<rparr>"

fun list_insert :: "addr \<Rightarrow> size_t \<Rightarrow> sys_call \<Rightarrow> addr \<Rightarrow> view \<Rightarrow> reply \<times> view" where
  "list_insert m sz k none (bs, md, l) =
     (if sz > 0 then
        (if m \<noteq> NULL then (Handle m, ((m, sz) # bs, counted sz md, k # l))
         else (Handle m, (bs, md, k # l)))
      else (Handle none, (bs, md, l)))"

fun list_exec :: "call \<Rightarrow> view \<Rightarrow> reply \<times> view" where
  "list_exec (Allocate sz m n) v = list_insert m sz (Malloc sz m) NULL v"
| "list_exec (Zero_allocate num sz m n) v = list_insert m sz (Calloc (scast num) sz m) NULL v"
| "list_exec (Resize p sz m n) v = list_insert m sz (Realloc p sz m) p v"
| "list_exec (Release p) (bs, md, l) =
     (case find (\<lambda>b. fst b = p) bs of
        None \<Rightarrow> (Signal 0, (bs, md, Free p # l))
      | Some b \<Rightarrow>
          (Signal 1,
           (remove1 b bs,
            md\<lparr>deallocations_count := deallocations_count md + 1,
               heap_memory_freed := heap_memory_freed md + snd b\<rparr>,
            Free p # l)))"
| "list_exec (Stack_init p sz) (bs, md, l) =
     (if p \<noteq> NULL
      then (Signal 1, (bs, md\<lparr>stack_memory_added := stack_memory_added md + sz\<rparr>,
                       Memset p sz # l))
      else (Signal 0, (bs, md, l)))"

fun list_run :: "call list \<Rightarrow> view \<Rightarrow> reply list \<times> view" where
  "list_run [] v = ([], v)"
| "list_run (c # cs) v =
     (case list_exec c v of (r, v') \<Rightarrow>
        (case list_run cs v' of (rs, v'') \<Rightarrow> (r # rs, v'')))"

fun answers_ok :: "call list \<Rightarrow> view \<Rightarrow> bool" where
  "answers_ok [] v = True"
| "answers_ok (c # cs) v =
     (answer_ok c (snd (snd v)) \<and> answers_ok cs (snd (list_exec c v)))"

section \<open>Counters that do not wrap around\<close>

text \<open>
  \<open>no_wrap c bs md\<close>: the additions that the call \<open>c\<close> makes to the counters \<open>md\<close>, when the
  registry holds the blocks \<open>bs\<close>, stay below \<open>2 ^ 64\<close>. A call that inserts a record adds
  1 to \<open>allocations_count\<close> and its size to \<open>heap_memory_added\<close>; a release that finds a
  record adds 1 to \<open>deallocations_count\<close> and the size in the record to
  \<open>heap_memory_freed\<close>; a \<open>stack_init\<close> of a location that is not \<open>NULL\<close> adds its size to
  \<open>stack_memory_added\<close>.
\<close>

fun no_wrap :: "call \<Rightarrow> (addr \<times> size_t) list \<Rightarrow> MemInfo \<Rightarrow> bool" where
  "no_wrap (Allocate sz m n) bs md =
     (if sz > 0 \<and> m \<noteq> NULL
      then unat (allocations_count md) + 1 < 2 ^ 64 \<and> unat (heap_memory_added md) + unat sz < 2 ^ 64
      else True)"
| "no_wrap (Zero_allocate num sz m n) bs md =
     (if sz > 0 \<and> m \<noteq> NULL
      then unat (allocations_count md) + 1 < 2 ^ 64 \<and> unat (heap_memory_added md) + unat sz < 2 ^ 64
      else True)"
| "no_wrap (Resize p sz m n) bs md =
     (if sz > 0 \<and> m \<noteq> NULL
      then unat (allocations_count md) + 1 < 2 ^ 64 \<and> unat (heap_memory_added md) + unat sz < 2 ^ 64
      else True)"
| "no_wrap (Release p) bs md =
     (case find (\<lambda>b. fst b = p) bs of
        None \<Rightarrow> True
      | Some b \<Rightarrow> unat (deallocations_count md) + 1 < 2 ^ 64
                 \<and> unat (heap_memory_freed md) + unat (snd b) < 2 ^ 64)"
| "no_wrap (Stack_init p sz) bs md =
     (if p \<noteq> NULL then unat (stack_memory_added md) + unat sz < 2 ^ 64 else True)"

text \<open>The calls that insert a record, and how many of them a sequence has.\<close>

fun succeeds :: "call \<Rightarrow> bool" where
  "succeeds (Allocate sz m n) = (sz > 0 \<and> m \<noteq> NULL)"
| "succeeds (Zero_allocate num sz m n) = (sz > 0 \<and> m \<noteq> NULL)"
| "succeeds (Resize p sz m n) = (sz > 0 \<and> m \<noteq> NULL)"
| "succeeds c = False"

definition allocations :: "call list \<Rightarrow> nat" where
  "allocations cs = length (filter succeeds cs)"

text \<open>
  Used in the proofs only: the counters \<open>md\<close> are what \<open>A\<close> insertions, of \<open>B\<close> bytes in
  all, and the removals that left the blocks \<open>bs\<close>, make of counters that started at 0.
\<close>

definition total :: "(addr \<times> size_t) list \<Rightarrow> nat" where
  "total bs = sum_list (map (\<lambda>b. unat (snd b)) bs)"

definition counts_balanced :: "(addr \<times> size_t) list \<Rightarrow> MemInfo \<Rightarrow> nat \<Rightarrow> bool" where
  "counts_balanced bs md A =
     (allocations_count md = of_nat A \<and> deallocations_count md = of_nat (A - length bs)
      \<and> length bs \<le> A)"

definition bytes_balanced :: "(addr \<times> size_t) list \<Rightarrow> MemInfo \<Rightarrow> nat \<Rightarrow> bool" where
  "bytes_balanced bs md B =
     (heap_memory_added md = of_nat B \<and> heap_memory_freed md = of_nat (B - total bs)
      \<and> total bs \<le> B)"

section \<open>Example states\<close>

text \<open>
  The state after \<open>allocate (16)\<close> answered 100, \<open>allocate (32)\<close> answered 200 and
  \<open>resize (100, 48)\<close> answered 100 again, with the three \<open>HeapInfo\<close> objects at 11, 12
  and 13.
\<close>

definition three_records :: state where
  "three_records =
     \<lparr>memory_data = \<lparr>allocations_count = 3, deallocations_count = 0,
        stack_memory_added = 0, heap_memory_added = 96, heap_memory_freed = 0\<rparr>,
      imp_heap = 13,
      store = [11 \<mapsto> \<lparr>next = 12, prev = NULL, ptr = 100, size_bytes = 16\<rparr>,
               12 \<mapsto> \<lparr>next = 13, prev = 11, ptr = 200, size_bytes = 32\<rparr>,
               13 \<mapsto> \<lparr>next = NULL, prev = 12, ptr = 100, size_bytes = 48\<rparr>],
      libc = [Realloc 100 48 100, Malloc 32 200, Malloc 16 100]\<rparr>"

text \<open>
  The state after \<open>allocate (16)\<close> answered 100, \<open>allocate (32)\<close> answered 200 and the
  first block was released.
\<close>

definition after_scenario :: state where
  "after_scenario =
     \<lparr>memory_data = \<lparr>allocations_count = 2, deallocations_count = 1,
        stack_memory_added = 0, heap_memory_added = 48, heap_memory_freed = 16\<rparr>,
      imp_heap = 12,
      store = [12 \<mapsto> \<lparr>next = NULL, prev = NULL, ptr = 200, size_bytes = 32\<rparr>],
      libc = [Free 100, Malloc 32 200, Malloc 16 100]\<rparr>"

text \<open>
  The state after \<open>allocate (16)\<close> answered 100 and \<open>resize (100, 32)\<close> answered 100: the
  block was resized in place.
\<close>

definition two_for_one :: state where
  "two_for_one =
     \<lparr>memory_data = \<lparr>allocations_count = 2, deallocations_count = 0,
        stack_memory_added = 0, heap_memory_added = 48, heap_memory_freed = 0\<rparr>,
      imp_heap = 12,
      store = [11 \<mapsto> \<lparr>next = 12, prev = NULL, ptr = 100, size_bytes = 16\<rparr>,
               12 \<mapsto> \<lparr>next = NULL, prev = 11, ptr = 100, size_bytes = 32\<rparr>],
      libc = [Realloc 100 32 100, Malloc 16 100]\<rparr>"

text \<open>
  The state after \<open>zero_allocate (0, 2 ^ 64 - 1)\<close> answered 100 (the allocator hands out
  a block for a request of no elements), the state one \<open>allocate (16)\<close> later, and the
  state after the first block has then been released.
\<close>

definition full_total :: state where
  "full_total =
     \<lparr>memory_data = \<lparr>allocations_count = 1, deallocations_count = 0,
        stack_memory_added = 0, heap_memory_added = 0xFFFFFFFFFFFFFFFF,
        heap_memory_freed = 0\<rparr>,
      imp_heap = 11,
      store = [11 \<mapsto> \<lparr>next = NULL, prev = NULL, ptr = 100, size_bytes = 0xFFFFFFFFFFFFFFFF\<rparr>],
      libc = [Calloc 0 0xFFFFFFFFFFFFFFFF 100]\<rparr>"

definition wrapped :: state where
  "wrapped =
     \<lparr>memory_data = \<lparr>allocations_count = 2, deallocations_count = 0,
        stack_memory_added = 0, heap_memory_added = 15, heap_memory_freed = 0\<rparr>,
      imp_heap = 12,
      store = [11 \<mapsto> \<lparr>next = 12, prev = NULL, ptr = 100, size_bytes = 0xFFFFFFFFFFFFFFFF\<rparr>,
               12 \<mapsto> \<lparr>next = NULL, prev = 11, ptr = 200, size_bytes = 16\<rparr>],
      libc = [Malloc 16 200, Calloc 0 0xFFFFFFFFFFFFFFFF 100]\<rparr>"

definition overdrawn :: state where
  "overdrawn =
     \<lparr>memory_data = \<lparr>allocations_count = 2, deallocations_count = 1,
        stack_memory_added = 0, heap_memory_added = 15,
        heap_memory_freed = 0xFFFFFFFFFFFFFFFF\<rparr>,
      imp_heap = 12,
      store = [12 \<mapsto> \<lparr>next = NULL, prev = NULL, ptr = 200, size_bytes = 16\<rparr>],
      libc = [Free 100, Malloc 16 200, Calloc 0 0xFFFFFFFFFFFFFFFF 100]\<rparr>"

section \<open>Facts about paths\<close>

lemma path_frame:
  "a \<notin> set ns \<Longrightarrow> path (h(a := v)) nx p ns q = path h nx p ns q"
  by (induction ns arbitrary: nx p) (auto split: option.splits)

lemma path_append:
  "path h nx p (xs @ ys) q =
     (\<exists>m. path h nx p xs m \<and> path h (if xs = [] then nx else last xs) m ys q)"
  by (induction xs arbitrary: nx p) (auto split: option.splits)

lemma path_fun:
  "path h nx p ns NULL \<Longrightarrow> path h nx' p ms NULL \<Longrightarrow> ns = ms"
proof (induction ns arbitrary: nx nx' p ms)
  case Nil
  then show ?case by (cases ms) auto
next
  case (Cons a ns)
  then show ?case by (cases ms) (auto split: option.splits)
qed

lemma path_distinct:
  "path h nx p ns NULL \<Longrightarrow> distinct ns"
proof (induction ns arbitrary: nx p)
  case Nil
  then show ?case by simp
next
  case (Cons a ns)
  then obtain r where r: "h a = Some r" "path h a (prev r) ns NULL" "p = a"
    by (auto split: option.splits)
  have "a \<notin> set ns"
  proof
    assume "a \<in> set ns"
    then obtain ys zs where ns: "ns = ys @ a # zs"
      by (auto simp: in_set_conv_decomp)
    with r(2) obtain nx' where "path h nx' a (a # zs) NULL"
      by (auto simp: path_append)
    with Cons.prems r(3) have "a # zs = a # ns"
      using path_fun by blast
    with ns show False by simp
  qed
  with Cons.IH r show ?case by simp
qed

lemma path_in_dom:
  "path h nx p ns q \<Longrightarrow> a \<in> set ns \<Longrightarrow> a \<noteq> NULL \<and> a \<in> dom h"
  by (induction ns arbitrary: nx p) (auto split: option.splits)

lemma scan_miss:
  "path h nx root ns NULL \<Longrightarrow> \<forall>a\<in>set ns. fst (block h a) \<noteq> p \<Longrightarrow>
   scan h p root = Some (Inr (0, NULL, NULL))"
proof (induction ns arbitrary: nx root)
  case Nil
  then show ?case by (subst scan.simps) simp
next
  case (Cons a ns)
  then show ?case
    by (subst scan.simps) (auto simp: block_def split: option.splits)
qed

lemma scan_hit:
  "path h nx root (ys @ a # zs) NULL \<Longrightarrow> \<forall>b\<in>set ys. fst (block h b) \<noteq> p \<Longrightarrow>
   fst (block h a) = p \<Longrightarrow> scan h p root = Some (Inr (1, a, a))"
proof (induction ys arbitrary: nx root)
  case Nil
  then show ?case
    by (subst scan.simps) (auto simp: block_def split: option.splits)
next
  case (Cons y ys)
  then show ?case
    by (subst scan.simps) (auto simp: block_def split: option.splits)
qed

lemma path_set_prev_last:
  "path h nx p (ys @ [c]) q \<Longrightarrow> distinct (ys @ [c]) \<Longrightarrow> h c = Some rc \<Longrightarrow>
   path (h(c \<mapsto> rc\<lparr>prev := q'\<rparr>)) nx p (ys @ [c]) q'"
  by (induction ys arbitrary: nx p) (auto split: option.splits)

section \<open>Unlinking a record\<close>

lemma path_split:
  assumes "path h nx t (ys @ a # zs) NULL"
  shows "\<exists>f. h a = Some f \<and> a \<noteq> NULL \<and> path h nx t ys a
           \<and> next f = (if ys = [] then nx else last ys)
           \<and> prev f = (if zs = [] then NULL else hd zs)
           \<and> path h a (prev f) zs NULL"
  using assms by (cases zs) (auto simp: path_append split: option.splits)

lemma path_unlinked:
  assumes p: "path h NULL t (ys @ a # zs) NULL"
  shows "path (unlinked h a ys zs) NULL (if t = a then (if zs = [] then NULL else hd zs) else t)
           (ys @ zs) NULL"
proof -
  from p have d: "distinct (ys @ a # zs)" by (rule path_distinct)
  from path_split [OF p] obtain f where f: "h a = Some f" "a \<noteq> NULL" "path h NULL t ys a"
     "next f = (if ys = [] then NULL else last ys)"
     "prev f = (if zs = [] then NULL else hd zs)" "path h a (prev f) zs NULL"
    by blast
  define nx where "nx = (if ys = [] then NULL else last ys)"
  define pv where "pv = (if zs = [] then NULL else hd zs)"
  define h1 where "h1 = (if zs = [] then h else h(pv \<mapsto> (the (h pv))\<lparr>next := nx\<rparr>))"
  define h2 where "h2 = (if ys = [] then h1 else h1(nx \<mapsto> (the (h1 nx))\<lparr>prev := pv\<rparr>))"
  have u: "unlinked h a ys zs = h2(a := None)"
    by (simp add: unlinked_def Let_def nx_def pv_def h1_def h2_def)
  have nx_notin: "nx \<notin> set zs \<and> nx \<noteq> a \<and> nx \<in> set ys" if "ys \<noteq> []"
  proof -
    from that obtain c where c: "c = last ys" "c \<in> set ys" by simp
    from that c(1) have "nx = c" by (simp add: nx_def)
    with d c(2) show ?thesis by auto
  qed
  have pv_notin: "pv \<notin> set ys \<and> pv \<noteq> a \<and> pv \<in> set zs" if "zs \<noteq> []"
  proof -
    from that obtain c where c: "c = hd zs" "c \<in> set zs" by simp
    from that c(1) have "pv = c" by (simp add: pv_def)
    with d c(2) show ?thesis by auto
  qed
  \<comment> \<open>the older part\<close>
  have z1: "path h1 nx pv zs NULL"
  proof (cases zs)
    case Nil
    with f show ?thesis by (simp add: h1_def pv_def)
  next
    case (Cons b bs)
    with f have pb: "path h a b (b # bs) NULL" by simp
    then obtain rb where rb: "h b = Some rb" by (auto split: option.splits)
    from d Cons have "b \<notin> set bs" by simp
    with pb rb have "path (h(b \<mapsto> rb\<lparr>next := nx\<rparr>)) nx b (b # bs) NULL"
      by (simp add: path_frame)
    with Cons rb show ?thesis by (simp add: h1_def pv_def)
  qed
  have z2: "path h2 nx pv zs NULL"
    using z1 nx_notin by (auto simp: h2_def path_frame)
  have z3: "path (h2(a := None)) nx pv zs NULL"
    using z2 d by (simp add: path_frame)
  \<comment> \<open>the newer part\<close>
  have y1: "path h1 NULL t ys a"
    using f(3) pv_notin by (auto simp: h1_def path_frame)
  have y2: "path h2 NULL (if t = a then pv else t) ys pv"
  proof (cases ys rule: rev_cases)
    case Nil
    with f show ?thesis by (simp add: h2_def)
  next
    case (snoc ys' c)
    with y1 have "c \<in> dom h1" using path_in_dom [of h1 NULL t ys a c] by simp
    then obtain rc where rc: "h1 c = Some rc" by blast
    from d snoc have dc: "distinct (ys' @ [c])" by simp
    from y1 snoc have "path h1 NULL t (ys' @ [c]) a" by simp
    from path_set_prev_last [OF this dc rc]
    have "path (h1(c \<mapsto> rc\<lparr>prev := pv\<rparr>)) NULL t ys pv" using snoc by simp
    moreover have "t \<noteq> a" using y1 d snoc by (cases ys') auto
    ultimately show ?thesis using snoc rc by (simp add: h2_def nx_def)
  qed
  have y3: "path (h2(a := None)) NULL (if t = a then pv else t) ys pv"
    using y2 d by (simp add: path_frame)
  from y3 z3 show ?thesis
    unfolding u by (auto simp: path_append nx_def pv_def)
qed

lemma path_last_hd:
  assumes p: "path h nx0 t (ys @ a # zs) NULL"
  shows "ys \<noteq> [] \<Longrightarrow> \<exists>c r. last ys = c \<and> h c = Some r \<and> c \<noteq> NULL \<and> c \<noteq> a \<and> c \<notin> set zs"
    and "zs \<noteq> [] \<Longrightarrow> \<exists>b r. hd zs = b \<and> h b = Some r \<and> b \<noteq> NULL \<and> b \<noteq> a \<and> b \<notin> set ys"
proof -
  from p have d: "distinct (ys @ a # zs)" by (rule path_distinct)
  show "\<exists>c r. last ys = c \<and> h c = Some r \<and> c \<noteq> NULL \<and> c \<noteq> a \<and> c \<notin> set zs" if "ys \<noteq> []"
  proof -
    from that obtain c where c: "c = last ys" "c \<in> set ys" by simp
    with path_in_dom [OF p, of c] d show ?thesis by auto
  qed
  show "\<exists>b r. hd zs = b \<and> h b = Some r \<and> b \<noteq> NULL \<and> b \<noteq> a \<and> b \<notin> set ys" if "zs \<noteq> []"
  proof -
    from that obtain b where b: "b = hd zs" "b \<in> set zs" by simp
    with path_in_dom [OF p, of b] d show ?thesis by auto
  qed
qed

lemma unlinked_cases:
  "unlinked h a [] [] = h(a := None)"
  "zs \<noteq> [] \<Longrightarrow> h (hd zs) = Some rb \<Longrightarrow>
     unlinked h a [] zs = (h(hd zs \<mapsto> rb\<lparr>next := NULL\<rparr>))(a := None)"
  "ys \<noteq> [] \<Longrightarrow> h (last ys) = Some rc \<Longrightarrow>
     unlinked h a ys [] = (h(last ys \<mapsto> rc\<lparr>prev := NULL\<rparr>))(a := None)"
  "ys \<noteq> [] \<Longrightarrow> zs \<noteq> [] \<Longrightarrow> h (hd zs) = Some rb \<Longrightarrow> h (last ys) = Some rc \<Longrightarrow>
     last ys \<noteq> hd zs \<Longrightarrow>
     unlinked h a ys zs =
       (h(hd zs \<mapsto> rb\<lparr>next := last ys\<rparr>, last ys \<mapsto> rc\<lparr>prev := hd zs\<rparr>))(a := None)"
  by (simp_all add: unlinked_def Let_def)

lemma unlinked_facts:
  assumes p: "path h nx0 t (ys @ a # zs) NULL"
  shows "dom (unlinked h a ys zs) = dom h - {a} \<and>
         (\<forall>x. x \<noteq> a \<longrightarrow> block (unlinked h a ys zs) x = block h x)"
proof (cases "ys = []"; cases "zs = []")
  assume "ys = []" "zs = []"
  then show ?thesis by (auto simp: unlinked_cases block_def)
next
  assume a: "ys = []" "zs \<noteq> []"
  with path_last_hd(2) [OF p] obtain b rb where "hd zs = b" "h b = Some rb" by blast
  with a show ?thesis by (auto simp: unlinked_cases block_def)
next
  assume a: "ys \<noteq> []" "zs = []"
  with path_last_hd(1) [OF p] obtain c rc where "last ys = c" "h c = Some rc" by blast
  with a show ?thesis by (auto simp: unlinked_cases block_def)
next
  assume a: "ys \<noteq> []" "zs \<noteq> []"
  with path_last_hd(1) [OF p] obtain c rc where c: "last ys = c" "h c = Some rc" "c \<notin> set zs"
    by blast
  from a path_last_hd(2) [OF p] obtain b rb where b: "hd zs = b" "h b = Some rb" "b \<in> set zs"
    by (cases zs) auto
  from b c have "c \<noteq> b" by auto
  with a b c show ?thesis by (auto simp: unlinked_cases block_def)
qed

lemma unlink_eq:
  assumes p: "path (store s) NULL (imp_heap s) (ys @ a # zs) NULL"
  shows "\<exists>f. store s a = Some f \<and>
           unlink a a s = Inr (s\<lparr>memory_data := (memory_data s)
                 \<lparr>deallocations_count := deallocations_count (memory_data s) + 1,
                  heap_memory_freed := heap_memory_freed (memory_data s) + size_bytes f\<rparr>,
               imp_heap := (if imp_heap s = a then (if zs = [] then NULL else hd zs)
                            else imp_heap s),
               store := unlinked (store s) a ys zs\<rparr>)"
proof -
  let ?h = "store s"
  from path_split [OF p] obtain f where f: "?h a = Some f" "a \<noteq> NULL"
     "next f = (if ys = [] then NULL else last ys)"
     "prev f = (if zs = [] then NULL else hd zs)"
    by blast
  have "unlink a a s = Inr (s\<lparr>memory_data := (memory_data s)
                 \<lparr>deallocations_count := deallocations_count (memory_data s) + 1,
                  heap_memory_freed := heap_memory_freed (memory_data s) + size_bytes f\<rparr>,
               imp_heap := (if imp_heap s = a then (if zs = [] then NULL else hd zs)
                            else imp_heap s),
               store := unlinked (store s) a ys zs\<rparr>)"
  proof (cases "ys = []"; cases "zs = []")
    assume "ys = []" "zs = []"
    then show ?thesis using f
      by (simp add: unlink_def unlinked_cases)
  next
    assume a: "ys = []" "zs \<noteq> []"
    with path_last_hd(2) [OF p] obtain b rb where "hd zs = b" "?h b = Some rb" "b \<noteq> NULL"
      by blast
    with a show ?thesis using f
      by (simp add: unlink_def unlinked_cases set_next_def)
  next
    assume a: "ys \<noteq> []" "zs = []"
    with path_last_hd(1) [OF p] obtain c rc where "last ys = c" "?h c = Some rc" "c \<noteq> NULL"
      by blast
    with a show ?thesis using f
      by (simp add: unlink_def unlinked_cases set_prev_def)
  next
    assume a: "ys \<noteq> []" "zs \<noteq> []"
    with path_last_hd(1) [OF p] obtain c rc
      where c: "last ys = c" "?h c = Some rc" "c \<noteq> NULL" "c \<notin> set zs"
      by blast
    from a path_last_hd(2) [OF p] obtain b rb
      where b: "hd zs = b" "?h b = Some rb" "b \<noteq> NULL" "b \<in> set zs"
      by (cases zs) auto
    from b c have "c \<noteq> b" by auto
    with a b c show ?thesis using f
      by (simp add: unlink_def unlinked_cases set_prev_def set_next_def)
  qed
  with f(1) show ?thesis by blast
qed

section \<open>Linking a record\<close>

lemma registry_tail:
  "registry s ns \<Longrightarrow> imp_heap s = (if ns = [] then NULL else hd ns)"
  by (cases ns) (auto simp: registry_def)

lemma link_node_registry:
  assumes r: "registry s ns" and n: "node_ok n s"
  shows "\<exists>s'. link_node m sz n s = Inr s' \<and> registry s' (n # ns)
           \<and> blocks s' (n # ns) = (m, sz) # blocks s ns
           \<and> store s' n = Some \<lparr>next = NULL, prev = imp_heap s, ptr = m, size_bytes = sz\<rparr>
           \<and> memory_data s' = memory_data s \<and> libc s' = libc s"
proof (cases ns)
  case Nil
  with r n show ?thesis
    by (auto simp: registry_def link_node_def node_ok_def blocks_def block_def)
next
  case (Cons a as)
  from r have p: "path (store s) NULL (imp_heap s) ns NULL" and d: "dom (store s) = set ns"
    by (simp_all add: registry_def)
  from p Cons obtain ra where a: "imp_heap s = a" "a \<noteq> NULL" "store s a = Some ra"
      "next ra = NULL" "path (store s) a (prev ra) as NULL"
    by (auto split: option.splits)
  from n d have nn: "n \<notin> set ns" "n \<noteq> NULL" "store s n = None"
    by (auto simp: node_ok_def)
  from path_distinct [OF p] Cons have da: "a \<notin> set as" by simp
  let ?new = "\<lparr>next = NULL, prev = a, ptr = m, size_bytes = sz\<rparr>"
  let ?h = "(store s)(n \<mapsto> ?new, a \<mapsto> ra\<lparr>next := n\<rparr>)"
  have l: "link_node m sz n s = Inr (s\<lparr>imp_heap := n, store := ?h\<rparr>)"
    using a nn Cons by (auto simp: link_node_def)
  have "path ?h a (prev ra) as NULL"
    using a(5) da nn Cons by (simp add: path_frame)
  then have "path ?h NULL n (n # ns) NULL"
    using a nn Cons by auto
  moreover have "dom ?h = set (n # ns)"
    using d a Cons by auto
  moreover have "map (block ?h) ns = map (block (store s)) ns"
    using a nn by (intro map_cong) (auto simp: block_def)
  moreover have "block ?h n = (m, sz)"
    using nn Cons by (auto simp: block_def)
  moreover have "?h n = Some \<lparr>next = NULL, prev = imp_heap s, ptr = m, size_bytes = sz\<rparr>"
    using nn a Cons by auto
  ultimately show ?thesis
    using l by (simp add: registry_def blocks_def)
qed

section \<open>What each operation does to a well-formed registry\<close>

lemma counted_registry:
  "registry (count_allocation sz (s\<lparr>libc := l\<rparr>)) ns = registry s ns"
  "node_ok n (count_allocation sz (s\<lparr>libc := l\<rparr>)) = node_ok n s"
  by (simp_all add: registry_def node_ok_def count_allocation_def)

lemma linked_after_count:
  assumes r: "registry s ns" and n: "node_ok n s"
  shows "\<exists>s'. link_node m sz n (count_allocation sz (s\<lparr>libc := l\<rparr>)) = Inr s'
           \<and> registry s' (n # ns)
           \<and> blocks s' (n # ns) = (m, sz) # blocks s ns
           \<and> store s' n = Some \<lparr>next = NULL, prev = imp_heap s, ptr = m, size_bytes = sz\<rparr>
           \<and> memory_data s' = (memory_data s)
                 \<lparr>allocations_count := allocations_count (memory_data s) + 1,
                  heap_memory_added := heap_memory_added (memory_data s) + sz\<rparr>
           \<and> libc s' = l"
proof -
  let ?s1 = "count_allocation sz (s\<lparr>libc := l\<rparr>)"
  from r n have "registry ?s1 ns" "node_ok n ?s1"
    by (simp_all add: counted_registry)
  from link_node_registry [OF this, of m sz] obtain s' where
    "link_node m sz n ?s1 = Inr s'" "registry s' (n # ns)"
    "blocks s' (n # ns) = (m, sz) # blocks ?s1 ns"
    "store s' n = Some \<lparr>next = NULL, prev = imp_heap ?s1, ptr = m, size_bytes = sz\<rparr>"
    "memory_data s' = memory_data ?s1" "libc s' = libc ?s1"
    by blast
  then show ?thesis
    by (simp add: count_allocation_def blocks_def)
qed

lemma mem_alloc_registry:
  assumes "registry s ns" "node_ok n s" "0 < sz" "m \<noteq> NULL"
  shows "\<exists>s'. mem_alloc sz m n s = Inr (m, s')
           \<and> registry s' (n # ns)
           \<and> blocks s' (n # ns) = (m, sz) # blocks s ns
           \<and> store s' n = Some \<lparr>next = NULL, prev = imp_heap s, ptr = m, size_bytes = sz\<rparr>
           \<and> memory_data s' = (memory_data s)
                 \<lparr>allocations_count := allocations_count (memory_data s) + 1,
                  heap_memory_added := heap_memory_added (memory_data s) + sz\<rparr>
           \<and> libc s' = Malloc sz m # libc s"
  using linked_after_count [OF assms(1,2), of m sz "Malloc sz m # libc s"] assms(3,4)
  by (auto simp: mem_alloc_def)

lemma mem_calloc_registry:
  assumes "registry s ns" "node_ok n s" "0 < sz" "m \<noteq> NULL"
  shows "\<exists>s'. mem_calloc num sz m n s = Inr (m, s')
           \<and> registry s' (n # ns)
           \<and> blocks s' (n # ns) = (m, sz) # blocks s ns
           \<and> store s' n = Some \<lparr>next = NULL, prev = imp_heap s, ptr = m, size_bytes = sz\<rparr>
           \<and> memory_data s' = (memory_data s)
                 \<lparr>allocations_count := allocations_count (memory_data s) + 1,
                  heap_memory_added := heap_memory_added (memory_data s) + sz\<rparr>
           \<and> libc s' = Calloc (scast num) sz m # libc s"
  using linked_after_count [OF assms(1,2), of m sz "Calloc (scast num) sz m # libc s"] assms(3,4)
  by (auto simp: mem_calloc_def)

lemma mem_realloc_registry:
  assumes "registry s ns" "node_ok n s" "0 < sz" "m \<noteq> NULL"
  shows "\<exists>s'. mem_realloc p sz m n s = Inr (m, s')
           \<and> registry s' (n # ns)
           \<and> blocks s' (n # ns) = (m, sz) # blocks s ns
           \<and> store s' n = Some \<lparr>next = NULL, prev = imp_heap s, ptr = m, size_bytes = sz\<rparr>
           \<and> memory_data s' = (memory_data s)
                 \<lparr>allocations_count := allocations_count (memory_data s) + 1,
                  heap_memory_added := heap_memory_added (memory_data s) + sz\<rparr>
           \<and> libc s' = Realloc p sz m # libc s"
  using linked_after_count [OF assms(1,2), of m sz "Realloc p sz m # libc s"] assms(3,4)
  by (auto simp: mem_realloc_def)

lemma mem_free_miss:
  assumes "registry s ns" "p \<notin> fst ` set (blocks s ns)"
  shows "mem_free p s = Some (Inr (0, s\<lparr>libc := Free p # libc s\<rparr>))"
proof -
  from assms have "path (store s) NULL (imp_heap s) ns NULL"
    "\<forall>a\<in>set ns. fst (block (store s) a) \<noteq> p"
    by (auto simp: registry_def blocks_def)
  from scan_miss [OF this] show ?thesis
    by (simp add: mem_free_def)
qed

lemma mem_free_hit:
  assumes r: "registry s (ys @ a # zs)"
    and ys: "\<forall>b\<in>set ys. fst (block (store s) b) \<noteq> p"
    and a: "fst (block (store s) a) = p"
  shows "\<exists>f s'. store s a = Some f \<and> ptr f = p \<and> mem_free p s = Some (Inr (1, s'))
           \<and> registry s' (ys @ zs)
           \<and> blocks s' (ys @ zs) = blocks s (ys @ zs)
           \<and> memory_data s' = (memory_data s)
                 \<lparr>deallocations_count := deallocations_count (memory_data s) + 1,
                  heap_memory_freed := heap_memory_freed (memory_data s) + size_bytes f\<rparr>
           \<and> libc s' = Free p # libc s"
proof -
  from r have p: "path (store s) NULL (imp_heap s) (ys @ a # zs) NULL"
    and d: "dom (store s) = set (ys @ a # zs)"
    by (simp_all add: registry_def)
  from scan_hit [OF p ys a] have sc: "scan (store s) p (imp_heap s) = Some (Inr (1, a, a))" .
  from unlink_eq [OF p] obtain f where f: "store s a = Some f"
    and u: "unlink a a s = Inr (s\<lparr>memory_data := (memory_data s)
                 \<lparr>deallocations_count := deallocations_count (memory_data s) + 1,
                  heap_memory_freed := heap_memory_freed (memory_data s) + size_bytes f\<rparr>,
               imp_heap := (if imp_heap s = a then (if zs = [] then NULL else hd zs)
                            else imp_heap s),
               store := unlinked (store s) a ys zs\<rparr>)" (is "_ = Inr ?s1")
    by blast
  from f a have pf: "ptr f = p" by (simp add: block_def)
  have m: "mem_free p s = Some (Inr (1, ?s1\<lparr>libc := Free p # libc s\<rparr>))"
    using sc u by (simp add: mem_free_def)
  from path_distinct [OF p] have da: "a \<notin> set (ys @ zs)" by auto
  have "path (unlinked (store s) a ys zs) NULL
          (if imp_heap s = a then (if zs = [] then NULL else hd zs) else imp_heap s)
          (ys @ zs) NULL"
    by (rule path_unlinked [OF p])
  moreover from unlinked_facts [OF p] d da
  have "dom (unlinked (store s) a ys zs) = set (ys @ zs)"
    and "map (block (unlinked (store s) a ys zs)) (ys @ zs) = map (block (store s)) (ys @ zs)"
    by (auto intro!: map_cong)
  ultimately have "registry (?s1\<lparr>libc := Free p # libc s\<rparr>) (ys @ zs)"
    and "blocks (?s1\<lparr>libc := Free p # libc s\<rparr>) (ys @ zs) = blocks s (ys @ zs)"
    by (simp_all add: registry_def blocks_def)
  with f pf m show ?thesis by simp
qed

lemma first_match:
  assumes "p \<in> fst ` set (blocks s ns)"
  shows "\<exists>ys a zs. ns = ys @ a # zs \<and> (\<forall>b\<in>set ys. fst (block (store s) b) \<noteq> p)
           \<and> fst (block (store s) a) = p"
proof -
  from assms have "\<exists>a\<in>set ns. fst (block (store s) a) = p"
    by (auto simp: blocks_def)
  from split_list_first_prop [OF this] show ?thesis by blast
qed

section \<open>The code does what the list operations say\<close>

lemma registry_libc: "registry (s\<lparr>libc := l\<rparr>) ns = registry s ns"
  by (simp add: registry_def)

lemma blocks_libc: "blocks (s\<lparr>libc := l\<rparr>) ns = blocks s ns"
  by (simp add: blocks_def)

lemma find_first_block:
  assumes "\<forall>b\<in>set ys. fst (block h b) \<noteq> p" and "fst (block h a) = p"
  shows "find (\<lambda>b. fst b = p) (map (block h) (ys @ a # zs)) = Some (block h a)"
    and "remove1 (block h a) (map (block h) (ys @ a # zs)) = map (block h) (ys @ zs)"
  using assms by (induction ys) auto

lemma find_no_block:
  "p \<notin> fst ` set bs \<Longrightarrow> find (\<lambda>b. fst b = p) bs = None"
  by (induction bs) auto

lemma exec_list_exec:
  assumes r: "registry s ns" and n: "record_ok c s"
  shows "\<exists>s' ns'. exec c s = Some (Inr (fst (list_exec c (view s ns)), s'))
           \<and> registry s' ns' \<and> view s' ns' = snd (list_exec c (view s ns))"
proof (cases c)
  case (Allocate sz m n)
  show ?thesis
  proof (cases "0 < sz \<and> m \<noteq> NULL")
    case True
    with n Allocate have "node_ok n s" by simp
    from mem_alloc_registry [OF r this, of sz m] True obtain s' where
      "mem_alloc sz m n s = Inr (m, s')" "registry s' (n # ns)"
      "view s' (n # ns) = ((m, sz) # blocks s ns, counted sz (memory_data s), Malloc sz m # libc s)"
      by (auto simp: view_def counted_def)
    with True Allocate show ?thesis
      by (intro exI [of _ s'] exI [of _ "n # ns"]) (simp add: view_def)
  next
    case False
    with r Allocate show ?thesis
      by (intro exI [of _ "if 0 < sz then s\<lparr>libc := Malloc sz m # libc s\<rparr> else s"] exI [of _ ns])
         (auto simp: mem_alloc_def view_def registry_libc blocks_libc)
  qed
next
  case (Zero_allocate num sz m n)
  show ?thesis
  proof (cases "0 < sz \<and> m \<noteq> NULL")
    case True
    with n Zero_allocate have "node_ok n s" by simp
    from mem_calloc_registry [OF r this, of sz m num] True obtain s' where
      "mem_calloc num sz m n s = Inr (m, s')" "registry s' (n # ns)"
      "view s' (n # ns) = ((m, sz) # blocks s ns, counted sz (memory_data s),
                           Calloc (scast num) sz m # libc s)"
      by (auto simp: view_def counted_def)
    with True Zero_allocate show ?thesis
      by (intro exI [of _ s'] exI [of _ "n # ns"]) (simp add: view_def)
  next
    case False
    with r Zero_allocate show ?thesis
      by (intro exI [of _ "if 0 < sz then s\<lparr>libc := Calloc (scast num) sz m # libc s\<rparr> else s"]
                exI [of _ ns])
         (auto simp: mem_calloc_def view_def registry_libc blocks_libc)
  qed
next
  case (Resize p sz m n)
  show ?thesis
  proof (cases "0 < sz \<and> m \<noteq> NULL")
    case True
    with n Resize have "node_ok n s" by simp
    from mem_realloc_registry [OF r this, of sz m p] True obtain s' where
      "mem_realloc p sz m n s = Inr (m, s')" "registry s' (n # ns)"
      "view s' (n # ns) = ((m, sz) # blocks s ns, counted sz (memory_data s),
                           Realloc p sz m # libc s)"
      by (auto simp: view_def counted_def)
    with True Resize show ?thesis
      by (intro exI [of _ s'] exI [of _ "n # ns"]) (simp add: view_def)
  next
    case False
    with r Resize show ?thesis
      by (intro exI [of _ "if 0 < sz then s\<lparr>libc := Realloc p sz m # libc s\<rparr> else s"]
                exI [of _ ns])
         (auto simp: mem_realloc_def view_def registry_libc blocks_libc)
  qed
next
  case (Release p)
  show ?thesis
  proof (cases "p \<in> fst ` set (blocks s ns)")
    case True
    from first_match [OF True] obtain ys a zs where ns: "ns = ys @ a # zs"
      and ys: "\<forall>b\<in>set ys. fst (block (store s) b) \<noteq> p"
      and a: "fst (block (store s) a) = p"
      by blast
    from r ns have "registry s (ys @ a # zs)" by simp
    from mem_free_hit [OF this ys a] obtain f s' where s':
      "store s a = Some f" "ptr f = p" "mem_free p s = Some (Inr (1, s'))"
      "registry s' (ys @ zs)" "blocks s' (ys @ zs) = blocks s (ys @ zs)"
      "memory_data s' = (memory_data s)
         \<lparr>deallocations_count := deallocations_count (memory_data s) + 1,
          heap_memory_freed := heap_memory_freed (memory_data s) + size_bytes f\<rparr>"
      "libc s' = Free p # libc s"
      by blast
    from s'(1) have b: "block (store s) a = (p, size_bytes f)"
      using a by (simp add: block_def)
    from find_first_block [OF ys a, of zs] ns b
    have "find (\<lambda>b. fst b = p) (blocks s ns) = Some (p, size_bytes f)"
      and "remove1 (p, size_bytes f) (blocks s ns) = blocks s (ys @ zs)"
      by (simp_all add: blocks_def)
    with s' Release show ?thesis
      by (intro exI [of _ s'] exI [of _ "ys @ zs"]) (simp add: view_def)
  next
    case False
    from mem_free_miss [OF r False] find_no_block [OF False] r Release show ?thesis
      by (intro exI [of _ "s\<lparr>libc := Free p # libc s\<rparr>"] exI [of _ ns])
         (simp add: view_def registry_libc blocks_libc)
  qed
next
  case (Stack_init p sz)
  with r show ?thesis
    by (intro exI [of _ "snd (mem_stack_init p sz s)"] exI [of _ ns])
       (auto simp: mem_stack_init_def view_def registry_def blocks_def)
qed

lemma run_list_run:
  assumes "registry s ns" and "conforming_run cs s"
  shows "\<exists>s' ns'. run cs s = Some (Inr (fst (list_run cs (view s ns)), s'))
           \<and> registry s' ns' \<and> view s' ns' = snd (list_run cs (view s ns))
           \<and> answers_ok cs (view s ns)"
  using assms
proof (induction cs arbitrary: s ns)
  case Nil
  then show ?case by auto
next
  case (Cons c cs)
  from Cons.prems have c: "answer_ok c (libc s)" "record_ok c s"
    by (simp_all add: conforming_def)
  from exec_list_exec [OF Cons.prems(1) c(2)] obtain s1 ns1 where
    s1: "exec c s = Some (Inr (fst (list_exec c (view s ns)), s1))" "registry s1 ns1"
    "view s1 ns1 = snd (list_exec c (view s ns))"
    by blast
  from Cons.prems(2) s1(1) have "conforming_run cs s1" by simp
  from Cons.IH [OF s1(2) this] obtain s' ns' where
    "run cs s1 = Some (Inr (fst (list_run cs (view s1 ns1)), s'))" "registry s' ns'"
    "view s' ns' = snd (list_run cs (view s1 ns1))" "answers_ok cs (view s1 ns1)"
    by blast
  with s1 c(1) show ?case
    by (intro exI [of _ s'] exI [of _ ns'])
       (simp add: view_def split: prod.splits)
qed

section \<open>Facts about sequences of list operations\<close>

subsection \<open>no record holds NULL\<close>

lemma list_exec_no_null:
  assumes "NULL \<notin> fst ` set bs"
  shows "NULL \<notin> fst ` set (fst (snd (list_exec c (bs, md, l))))"
proof (cases c)
  case (Release p)
  have "set (remove1 b bs) \<subseteq> set bs" for b by (rule set_remove1_subset)
  with assms Release show ?thesis
    by (auto split: option.splits)
qed (use assms in auto)

lemma list_run_Cons:
  "list_run (c # cs) v =
     (fst (list_exec c v) # fst (list_run cs (snd (list_exec c v))),
      snd (list_run cs (snd (list_exec c v))))"
  by (simp split: prod.splits)

lemma list_run_length: "length (fst (list_run cs v)) = length cs"
  by (induction cs arbitrary: v) (simp_all add: list_run_Cons del: list_run.simps(2))

lemma list_run_no_null:
  "NULL \<notin> fst ` set (fst v) \<Longrightarrow> NULL \<notin> fst ` set (fst (snd (list_run cs v)))"
proof (induction cs arbitrary: v)
  case Nil
  then show ?case by simp
next
  case (Cons c cs)
  obtain bs md l where v: "v = (bs, md, l)" by (cases v) auto
  with Cons.prems have "NULL \<notin> fst ` set (fst (snd (list_exec c v)))"
    using list_exec_no_null by simp
  from Cons.IH [OF this] show ?case
    by (simp add: list_run_Cons del: list_run.simps)
qed

subsection \<open>the blocks of the registry are the blocks handed out\<close>

lemma remove1_distinct_fst:
  assumes "distinct (map fst bs)" and "b \<in> set bs"
  shows "distinct (map fst (remove1 b bs)) \<and> fst ` set (remove1 b bs) = fst ` set bs - {fst b}"
  using assms
proof (induction bs)
  case Nil
  then show ?case by simp
next
  case (Cons x bs)
  show ?case
  proof (cases "x = b")
    case True
    with Cons.prems show ?thesis by auto
  next
    case False
    with Cons.prems have "b \<in> set bs" "distinct (map fst bs)" by auto
    from Cons.IH [OF this(2,1)] Cons.prems False show ?thesis
      by (auto simp: image_iff) 
  qed
qed

lemma find_Some_fst:
  "find (\<lambda>b. fst b = p) bs = Some b \<Longrightarrow> b \<in> set bs \<and> fst b = p"
  by (induction bs) (auto split: if_splits)

lemma find_None_fst:
  "find (\<lambda>b. fst b = p) bs = None \<Longrightarrow> p \<notin> fst ` set bs"
  by (induction bs) (auto split: if_splits)

lemma list_exec_tracks:
  assumes d: "distinct (map fst bs)" and e: "fst ` set bs = live l"
    and a: "answer_ok c l" and nr: "\<not> is_resize c"
    and x: "list_exec c (bs, md, l) = (r, (bs', md', l'))"
  shows "distinct (map fst bs') \<and> fst ` set bs' = live l' \<and> live l' = tally (c, r) (live l)"
proof (cases c)
  case (Allocate sz m n)
  from e have "fst b \<in> live l" if "b \<in> set bs" for b using that by auto
  with d e a x Allocate show ?thesis by (auto split: if_splits)
next
  case (Zero_allocate num sz m n)
  from e have "fst b \<in> live l" if "b \<in> set bs" for b using that by auto
  with d e a x Zero_allocate show ?thesis by (auto split: if_splits)
next
  case (Resize p sz m n)
  with nr show ?thesis by simp
next
  case (Release p)
  show ?thesis
  proof (cases "find (\<lambda>b. fst b = p) bs")
    case None
    from find_None_fst [OF None] e have "live l - {p} = live l" by auto
    with None Release d e x show ?thesis by auto
  next
    case (Some b)
    from find_Some_fst [OF Some] have b: "b \<in> set bs" "fst b = p" by simp_all
    from remove1_distinct_fst [OF d b(1)] b(2) Some Release e x show ?thesis by auto
  qed
next
  case (Stack_init p sz)
  with d e x show ?thesis by (auto split: if_splits)
qed

lemma list_run_tracks:
  assumes "distinct (map fst bs)" and "fst ` set bs = live l"
    and "answers_ok cs (bs, md, l)" and "\<forall>c\<in>set cs. \<not> is_resize c"
    and "list_run cs (bs, md, l) = (rs, (bs', md', l'))"
  shows "distinct (map fst bs') \<and> fst ` set bs' = live l'
         \<and> live l' = outstanding (live l) (zip cs rs)"
  using assms
proof (induction cs arbitrary: bs md l rs)
  case Nil
  then show ?case by simp
next
  case (Cons c cs)
  obtain r bs1 md1 l1 where x: "list_exec c (bs, md, l) = (r, (bs1, md1, l1))"
    by (metis prod_cases3)
  obtain rs1 where rs: "list_run cs (bs1, md1, l1) = (rs1, (bs', md', l'))" "rs = r # rs1"
    using Cons.prems(5) x by (auto split: prod.splits)
  from Cons.prems have a: "answer_ok c l" "\<not> is_resize c" by simp_all
  from list_exec_tracks [OF Cons.prems(1,2) a x]
  have k: "distinct (map fst bs1)" "fst ` set bs1 = live l1" "live l1 = tally (c, r) (live l)"
    by simp_all
  from Cons.prems x have "answers_ok cs (bs1, md1, l1)" "\<forall>c\<in>set cs. \<not> is_resize c"
    by simp_all
  from Cons.IH [OF k(1,2) this rs(1)] k(3) rs(2) show ?case by simp
qed

lemma path_ends:
  "path h nx p ns NULL \<Longrightarrow> ns \<noteq> [] \<Longrightarrow> \<exists>r. h (last ns) = Some r \<and> prev r = NULL"
  by (induction ns arbitrary: nx p) (auto split: option.splits)

lemma init_registry: "registry init []"
  by (simp add: registry_def init_def)

lemma init_view: "view init [] = ([], memory_data init, [])"
  by (simp add: view_def blocks_def init_def)

lemma reached_registry:
  assumes "conforming_run cs init" and "run cs init = Some (Inr (rs, s))"
  shows "\<exists>ns. registry s ns"
  using run_list_run [OF init_registry assms(1)] assms(2) by auto

section \<open>Facts about the counters\<close>

lemma word_le_add:
  fixes a d :: "64 word"
  assumes "unat a + unat d < 2 ^ 64"
  shows "a \<le> a + d"
proof -
  from assms have "unat (a + d) = unat a + unat d"
    using unat_add_lem [of a d] by simp
  then show ?thesis by (simp add: word_le_nat_alt)
qed

lemma word_le_succ:
  fixes a :: "64 word"
  assumes "unat a + 1 < 2 ^ 64"
  shows "a \<le> a + 1"
  using word_le_add [of a 1] assms by simp

lemma list_exec_monotone:
  assumes "no_wrap c bs md" and "list_exec c (bs, md, l) = (r, (bs', md', l'))"
  shows "allocations_count md \<le> allocations_count md'
         \<and> deallocations_count md \<le> deallocations_count md'
         \<and> heap_memory_added md \<le> heap_memory_added md'
         \<and> heap_memory_freed md \<le> heap_memory_freed md'
         \<and> stack_memory_added md \<le> stack_memory_added md'"
proof (cases c)
  case (Allocate sz m n)
  with assms show ?thesis
    by (auto simp: counted_def word_le_add word_le_succ split: if_splits)
next
  case (Zero_allocate num sz m n)
  with assms show ?thesis
    by (auto simp: counted_def word_le_add word_le_succ split: if_splits)
next
  case (Resize p sz m n)
  with assms show ?thesis
    by (auto simp: counted_def word_le_add word_le_succ split: if_splits)
next
  case (Release p)
  with assms show ?thesis
    by (auto simp: word_le_add word_le_succ split: option.splits)
next
  case (Stack_init p sz)
  with assms show ?thesis
    by (auto simp: word_le_add split: if_splits)
qed

lemma total_remove1:
  "b \<in> set bs \<Longrightarrow> total bs = unat (snd b) + total (remove1 b bs)"
  unfolding total_def by (rule sum_list_map_remove1)

lemma length_remove1_in:
  "b \<in> set bs \<Longrightarrow> length bs = Suc (length (remove1 b bs))"
  by (induction bs) auto

lemma balanced_insert:
  assumes "counts_balanced bs md A" and "bytes_balanced bs md B"
  shows "counts_balanced ((m, sz) # bs) (counted sz md) (Suc A)"
    and "bytes_balanced ((m, sz) # bs) (counted sz md) (B + unat sz)"
  using assms by (simp_all add: counts_balanced_def bytes_balanced_def counted_def total_def)

lemma balanced_remove:
  assumes c: "counts_balanced bs md A" and y: "bytes_balanced bs md B" and b: "b \<in> set bs"
  shows "counts_balanced (remove1 b bs)
           (md\<lparr>deallocations_count := deallocations_count md + 1,
               heap_memory_freed := heap_memory_freed md + snd b\<rparr>) A"
    and "bytes_balanced (remove1 b bs)
           (md\<lparr>deallocations_count := deallocations_count md + 1,
               heap_memory_freed := heap_memory_freed md + snd b\<rparr>) B"
proof -
  from total_remove1 [OF b] have t: "total bs = unat (snd b) + total (remove1 b bs)" .
  from length_remove1_in [OF b] have n: "length bs = Suc (length (remove1 b bs))" .
  from c y have le: "length bs \<le> A" "total bs \<le> B"
    by (simp_all add: counts_balanced_def bytes_balanced_def)
  have "A - length (remove1 b bs) = Suc (A - length bs)"
    using n le by simp
  then have d: "(of_nat (A - length bs) :: 64 word) + 1 = of_nat (A - length (remove1 b bs))"
    by simp
  have "B - total (remove1 b bs) = (B - total bs) + unat (snd b)"
    using t le by simp
  then have f: "(of_nat (B - total bs) :: 64 word) + snd b = of_nat (B - total (remove1 b bs))"
    by simp
  from c d n show "counts_balanced (remove1 b bs)
           (md\<lparr>deallocations_count := deallocations_count md + 1,
               heap_memory_freed := heap_memory_freed md + snd b\<rparr>) A"
    by (simp add: counts_balanced_def)
  from y f t show "bytes_balanced (remove1 b bs)
           (md\<lparr>deallocations_count := deallocations_count md + 1,
               heap_memory_freed := heap_memory_freed md + snd b\<rparr>) B"
    by (simp add: bytes_balanced_def)
qed

lemma list_exec_balanced:
  assumes c: "counts_balanced bs md A" and y: "bytes_balanced bs md B"
    and x: "list_exec c (bs, md, l) = (r, (bs', md', l'))"
  shows "counts_balanced bs' md' (A + (if succeeds c then 1 else 0))
         \<and> bytes_balanced bs' md' (B + charged c)"
proof (cases c)
  case (Allocate sz m n)
  with c y x balanced_insert [OF c y, of m sz] show ?thesis
    by (auto split: if_splits)
next
  case (Zero_allocate num sz m n)
  with c y x balanced_insert [OF c y, of m sz] show ?thesis
    by (auto split: if_splits)
next
  case (Resize p sz m n)
  with c y x balanced_insert [OF c y, of m sz] show ?thesis
    by (auto split: if_splits)
next
  case (Release p)
  show ?thesis
  proof (cases "find (\<lambda>b. fst b = p) bs")
    case None
    with c y x Release show ?thesis by auto
  next
    case (Some b)
    from find_Some_fst [OF Some] have "b \<in> set bs" by simp
    from balanced_remove [OF c y this] Some Release x show ?thesis by auto
  qed
next
  case (Stack_init p sz)
  with c y x show ?thesis
    by (auto simp: counts_balanced_def bytes_balanced_def split: if_splits)
qed

lemma allocations_Cons:
  "allocations (c # cs) = (if succeeds c then 1 else 0) + allocations cs"
  by (simp add: allocations_def)

lemma bytes_added_Cons: "bytes_added (c # cs) = charged c + bytes_added cs"
  by (simp add: bytes_added_def)

lemma list_run_balanced:
  assumes "counts_balanced bs md A" and "bytes_balanced bs md B"
    and "list_run cs (bs, md, l) = (rs, (bs', md', l'))"
  shows "counts_balanced bs' md' (A + allocations cs)
         \<and> bytes_balanced bs' md' (B + bytes_added cs)"
  using assms
proof (induction cs arbitrary: bs md l rs A B)
  case Nil
  then show ?case by (auto simp: bytes_added_def allocations_def)
next
  case (Cons c cs)
  obtain r bs1 md1 l1 where x: "list_exec c (bs, md, l) = (r, (bs1, md1, l1))"
    by (metis prod_cases3)
  obtain rs1 where rs: "list_run cs (bs1, md1, l1) = (rs1, (bs', md', l'))"
    using Cons.prems(3) x by (auto split: prod.splits)
  from list_exec_balanced [OF Cons.prems(1,2) x]
  have "counts_balanced bs1 md1 (A + (if succeeds c then 1 else 0))"
    and "bytes_balanced bs1 md1 (B + charged c)"
    by simp_all
  from Cons.IH [OF this rs] show ?case
    by (simp only: allocations_Cons bytes_added_Cons add.assoc)
qed

lemma unat_of_nat_64: "n < 2 ^ 64 \<Longrightarrow> unat (of_nat n :: 64 word) = n"
  by (simp add: unat_of_nat)

lemma counts_balanced_modular:
  assumes "counts_balanced bs md A"
  shows "allocations_count md - deallocations_count md = of_nat (length bs)"
  using assms by (simp add: counts_balanced_def)

lemma counts_balanced_le:
  assumes "counts_balanced bs md A" and "A < 2 ^ 64"
  shows "deallocations_count md \<le> allocations_count md
         \<and> length bs + unat (deallocations_count md) = unat (allocations_count md)"
proof -
  from assms(2) have A: "A - length bs < 2 ^ 64" by arith
  from assms(1) have e: "allocations_count md = of_nat A"
    "deallocations_count md = of_nat (A - length bs)" and le: "length bs \<le> A"
    by (simp_all add: counts_balanced_def)
  have "unat (allocations_count md) = A" "unat (deallocations_count md) = A - length bs"
    unfolding e using A assms(2) by (simp_all only: unat_of_nat_64)
  with le show ?thesis by (simp add: word_le_nat_alt)
qed

lemma bytes_balanced_le:
  assumes "bytes_balanced bs md B" and "B < 2 ^ 64"
  shows "heap_memory_freed md \<le> heap_memory_added md"
proof -
  from assms(2) have B: "B - total bs < 2 ^ 64" by arith
  from assms(1) have e: "heap_memory_added md = of_nat B"
    "heap_memory_freed md = of_nat (B - total bs)"
    by (simp_all add: bytes_balanced_def)
  have "unat (heap_memory_added md) = B" "unat (heap_memory_freed md) = B - total bs"
    unfolding e using B assms(2) by (simp_all only: unat_of_nat_64)
  then show ?thesis by (simp add: word_le_nat_alt)
qed

section \<open>The example states\<close>

lemmas run_simps = mem_alloc_def mem_calloc_def mem_realloc_def mem_free_def mem_stack_init_def
  link_node_def count_allocation_def unlink_def set_next_def set_prev_def scan.simps
  conforming_def node_ok_def init_def

lemma after_scenario_reached:
  "run [Allocate 16 100 11, Allocate 32 200 12, Release 100] init
     = Some (Inr ([Handle 100, Handle 200, Signal 1], after_scenario))"
  by (simp add: run_simps after_scenario_def)

lemma after_scenario_conforming:
  "conforming_run [Allocate 16 100 11, Allocate 32 200 12, Release 100] init"
  by (simp add: run_simps)

lemma two_for_one_reached:
  "run [Allocate 16 100 11, Resize 100 32 100 12] init
     = Some (Inr ([Handle 100, Handle 100], two_for_one))"
  by (simp add: run_simps two_for_one_def fun_upd_twist)

lemma two_for_one_conforming:
  "conforming_run [Allocate 16 100 11, Resize 100 32 100 12] init"
  by (simp add: run_simps)

lemma full_total_reached:
  "run [Zero_allocate 0 0xFFFFFFFFFFFFFFFF 100 11] init = Some (Inr ([Handle 100], full_total))"
  by (simp add: run_simps full_total_def)

lemma wrapped_step:
  "exec (Allocate 16 200 12) full_total = Some (Inr (Handle 200, wrapped))"
  by (simp add: run_simps full_total_def wrapped_def fun_upd_twist)

lemma overdrawn_reached:
  "run [Zero_allocate 0 0xFFFFFFFFFFFFFFFF 100 11, Allocate 16 200 12, Release 100] init
     = Some (Inr ([Handle 100, Handle 200, Signal 1], overdrawn))"
  by (simp add: run_simps overdrawn_def)

lemma overdrawn_conforming:
  "conforming_run [Zero_allocate 0 0xFFFFFFFFFFFFFFFF 100 11, Allocate 16 200 12, Release 100]
     init"
  by (simp add: run_simps)

lemma three_records_reached:
  "run [Allocate 16 100 11, Allocate 32 200 12, Resize 100 48 100 13] init = Some (Inr ([Handle 100, Handle 200, Handle 100], three_records))"
  by (simp add: mem_alloc_def mem_realloc_def link_node_def count_allocation_def init_def three_records_def fun_upd_twist)

lemma three_records_registry: "registry three_records [13, 12, 11]"
  by (auto simp: registry_def three_records_def)

lemma three_records_blocks: "blocks three_records [13, 12, 11] = [(100, 48), (200, 32), (100, 16)]"
  by (simp add: blocks_def block_def three_records_def)

section \<open>The claims\<close>

text \<open>
  C1. In a well-formed registry that holds at least one record with the address \<open>p\<close>,
  \<open>release (p)\<close> returns 1 (matched) and removes exactly one record: the first with
  address \<open>p\<close> on the way from the tail along \<open>prev\<close>, which is the most recently
  inserted one (no record in \<open>ys\<close>, the records inserted after it, has address \<open>p\<close>).
  The other records stay, in their order and with their addresses and sizes.
  \<open>deallocations_count\<close> grows by 1 and \<open>heap_memory_freed\<close> by the size recorded in
  the removed record (both modulo \<open>2 ^ 64\<close>); the other three counters keep their values,
  and \<open>free (p)\<close> is called.
\<close>

theorem release_matched:
  assumes "registry s ns" and "p \<in> fst ` set (blocks s ns)"
  shows "\<exists>ys a zs f s'.
           ns = ys @ a # zs \<and> (\<forall>b\<in>set ys. fst (block (store s) b) \<noteq> p)
           \<and> store s a = Some f \<and> ptr f = p
           \<and> mem_free p s = Some (Inr (1, s'))
           \<and> registry s' (ys @ zs)
           \<and> blocks s' (ys @ zs) = blocks s ys @ blocks s zs
           \<and> deallocations_count (memory_data s') = deallocations_count (memory_data s) + 1
           \<and> heap_memory_freed (memory_data s') = heap_memory_freed (memory_data s) + size_bytes f
           \<and> allocations_count (memory_data s') = allocations_count (memory_data s)
           \<and> heap_memory_added (memory_data s') = heap_memory_added (memory_data s)
           \<and> stack_memory_added (memory_data s') = stack_memory_added (memory_data s)
           \<and> libc s' = Free p # libc s"
proof -
  from first_match [OF assms(2)] obtain ys a zs where ns: "ns = ys @ a # zs"
    and ys: "\<forall>b\<in>set ys. fst (block (store s) b) \<noteq> p"
    and a: "fst (block (store s) a) = p"
    by blast
  from assms(1) ns have "registry s (ys @ a # zs)" by simp
  from mem_free_hit [OF this ys a] obtain f s' where
    "store s a = Some f" "ptr f = p" "mem_free p s = Some (Inr (1, s'))"
    "registry s' (ys @ zs)" "blocks s' (ys @ zs) = blocks s (ys @ zs)"
    "memory_data s' = (memory_data s)
       \<lparr>deallocations_count := deallocations_count (memory_data s) + 1,
        heap_memory_freed := heap_memory_freed (memory_data s) + size_bytes f\<rparr>"
    "libc s' = Free p # libc s"
    by blast
  with ns ys show ?thesis
    by (intro exI [of _ ys] exI [of _ a] exI [of _ zs] exI [of _ f] exI [of _ s'])
       (simp add: blocks_def)
qed

theorem release_matched_witness:
  "registry three_records [13, 12, 11] \<and> 100 \<in> fst ` set (blocks three_records [13, 12, 11])
   \<and> mem_free 100 three_records =
       Some (Inr (1, \<lparr>memory_data = \<lparr>allocations_count = 3, deallocations_count = 1,
                        stack_memory_added = 0, heap_memory_added = 96, heap_memory_freed = 48\<rparr>,
                      imp_heap = 12,
                      store = [11 \<mapsto> \<lparr>next = 12, prev = NULL, ptr = 100, size_bytes = 16\<rparr>,
                               12 \<mapsto> \<lparr>next = NULL, prev = 11, ptr = 200, size_bytes = 32\<rparr>],
                      libc = [Free 100, Realloc 100 48 100, Malloc 32 200, Malloc 16 100]\<rparr>))
   \<and> (\<exists>ys a zs f s'.
           [13, 12, 11] = ys @ a # zs
           \<and> store three_records a = Some f
           \<and> mem_free 100 three_records = Some (Inr (1, s'))
           \<and> registry s' (ys @ zs)
           \<and> heap_memory_freed (memory_data s')
               = heap_memory_freed (memory_data three_records) + size_bytes f)"
proof -
  have r: "registry three_records [13, 12, 11]" by (rule three_records_registry)
  have m: "100 \<in> fst ` set (blocks three_records [13, 12, 11])"
    by (simp add: three_records_blocks)
  have e: "mem_free 100 three_records =
       Some (Inr (1, \<lparr>memory_data = \<lparr>allocations_count = 3, deallocations_count = 1,
                        stack_memory_added = 0, heap_memory_added = 96, heap_memory_freed = 48\<rparr>,
                      imp_heap = 12,
                      store = [11 \<mapsto> \<lparr>next = 12, prev = NULL, ptr = 100, size_bytes = 16\<rparr>,
                               12 \<mapsto> \<lparr>next = NULL, prev = 11, ptr = 200, size_bytes = 32\<rparr>],
                      libc = [Free 100, Realloc 100 48 100, Malloc 32 200, Malloc 16 100]\<rparr>))"
    by (simp add: mem_free_def scan.simps unlink_def set_next_def set_prev_def three_records_def)
  from release_matched [OF r m] have "\<exists>ys a zs f s'.
           [13, 12, 11] = ys @ a # zs
           \<and> store three_records a = Some f
           \<and> mem_free 100 three_records = Some (Inr (1, s'))
           \<and> registry s' (ys @ zs)
           \<and> heap_memory_freed (memory_data s')
               = heap_memory_freed (memory_data three_records) + size_bytes f"
    by blast
  with r m e show ?thesis by blast
qed

text \<open>
  C2. Every sequence of calls without a \<open>resize\<close>, run from the initial state with a
  conforming allocator, returns (one reply for each call), and afterwards: following \<open>prev\<close> from the tail visits
  the records at \<open>ns\<close> and ends at \<open>NULL\<close>; the addresses held by these records are
  exactly the handles that successful allocations returned and that no release has
  matched since, each held once; \<open>ns\<close> has no repetition and is all the allocated
  records; and unless the registry is empty, the last record visited has an empty
  \<open>prev\<close>.
\<close>

theorem registry_is_outstanding_handles:
  assumes "conforming_run cs init" and nr: "list_all (\<lambda>c. \<not> is_resize c) cs"
  shows "\<exists>rs s ns. run cs init = Some (Inr (rs, s)) \<and> length rs = length cs
           \<and> path (store s) NULL (imp_heap s) ns NULL
           \<and> fst ` set (blocks s ns) = outstanding {} (zip cs rs)
           \<and> distinct (map fst (blocks s ns))
           \<and> distinct ns \<and> set ns = dom (store s)
           \<and> (ns = [] \<or> (\<exists>r. store s (last ns) = Some r \<and> prev r = NULL))"
proof -
  from run_list_run [OF init_registry assms(1)] obtain s ns where
    run: "run cs init = Some (Inr (fst (list_run cs (view init [])), s))"
    and r: "registry s ns" and v: "view s ns = snd (list_run cs (view init []))"
    and a: "answers_ok cs (view init [])"
    by blast
  define rs where "rs = fst (list_run cs (view init []))"
  have "list_run cs (view init []) = (rs, view s ns)"
    by (simp add: rs_def v)
  then have lr: "list_run cs ([], memory_data init, []) = (rs, (blocks s ns, memory_data s, libc s))"
    by (simp only: init_view) (simp add: view_def)
  have e1: "distinct (map fst ([] :: (addr \<times> size_t) list))"
    and e2: "fst ` set ([] :: (addr \<times> size_t) list) = live []"
    by simp_all
  from nr have "\<forall>c\<in>set cs. \<not> is_resize c" by (simp add: list_all_iff)
  from list_run_tracks [OF e1 e2 _ this lr] a
  have k: "distinct (map fst (blocks s ns))" "fst ` set (blocks s ns) = live (libc s)"
    "live (libc s) = outstanding {} (zip cs rs)"
    by (simp_all add: init_view)
  from r have p: "path (store s) NULL (imp_heap s) ns NULL" and d: "dom (store s) = set ns"
    by (simp_all add: registry_def)
  from path_distinct [OF p] have "distinct ns" .
  moreover from path_ends [OF p]
  have "ns = [] \<or> (\<exists>r. store s (last ns) = Some r \<and> prev r = NULL)"
    by blast
  moreover have "length rs = length cs"
    by (simp add: rs_def list_run_length)
  ultimately show ?thesis
    using run k p d unfolding rs_def [symmetric]
    by (intro exI [of _ rs] exI [of _ s] exI [of _ ns]) simp
qed

theorem registry_is_outstanding_handles_witness:
  "conforming_run [Allocate 16 100 11, Allocate 32 200 12, Release 100] init
   \<and> list_all (\<lambda>c. \<not> is_resize c) [Allocate 16 100 11, Allocate 32 200 12, Release 100]
   \<and> run [Allocate 16 100 11, Allocate 32 200 12, Release 100] init
       = Some (Inr ([Handle 100, Handle 200, Signal 1], after_scenario))
   \<and> outstanding {} (zip [Allocate 16 100 11, Allocate 32 200 12, Release 100]
                          [Handle 100, Handle 200, Signal 1]) = {200}
   \<and> (\<exists>ns. path (store after_scenario) NULL (imp_heap after_scenario) ns NULL
          \<and> fst ` set (blocks after_scenario ns) = {200}
          \<and> distinct ns \<and> set ns = dom (store after_scenario))"
proof -
  let ?cs = "[Allocate 16 100 11, Allocate 32 200 12, Release 100]"
  have c: "conforming_run ?cs init" by (rule after_scenario_conforming)
  have n: "list_all (\<lambda>c. \<not> is_resize c) ?cs" by simp
  have o: "outstanding {} (zip ?cs [Handle 100, Handle 200, Signal 1]) = {200}"
    by auto
  from registry_is_outstanding_handles [OF c n] obtain rs s ns where
    "run ?cs init = Some (Inr (rs, s))"
    "path (store s) NULL (imp_heap s) ns NULL"
    "fst ` set (blocks s ns) = outstanding {} (zip ?cs rs)"
    "distinct ns" "set ns = dom (store s)"
    by blast
  with after_scenario_reached o
  have "\<exists>ns. path (store after_scenario) NULL (imp_heap after_scenario) ns NULL
          \<and> fst ` set (blocks after_scenario ns) = {200}
          \<and> distinct ns \<and> set ns = dom (store after_scenario)"
    by auto
  with c n o after_scenario_reached show ?thesis by blast
qed

text \<open>
  C3. A \<open>zero_allocate (num, sz)\<close> with \<open>sz > 0\<close> that succeeds (\<open>calloc\<close> answers \<open>m\<close>,
  not \<open>NULL\<close>, and the \<open>HeapInfo\<close> is allocated) returns \<open>m\<close>, adds 1 to
  \<open>allocations_count\<close> and \<open>sz\<close>, the size of one element, to \<open>heap_memory_added\<close> (both
  modulo \<open>2 ^ 64\<close>), whatever \<open>num\<close> is, and the record it inserts at the tail holds the
  address \<open>m\<close> and the size \<open>sz\<close>. The reservation itself is \<open>calloc (num, sz)\<close>.
\<close>

theorem zero_allocate_counts_element_size:
  assumes "registry s ns" and "node_ok n s" and "0 < sz" and "m \<noteq> NULL"
  shows "\<exists>s'. mem_calloc num sz m n s = Inr (m, s')
           \<and> allocations_count (memory_data s') = allocations_count (memory_data s) + 1
           \<and> heap_memory_added (memory_data s') = heap_memory_added (memory_data s) + sz
           \<and> deallocations_count (memory_data s') = deallocations_count (memory_data s)
           \<and> heap_memory_freed (memory_data s') = heap_memory_freed (memory_data s)
           \<and> stack_memory_added (memory_data s') = stack_memory_added (memory_data s)
           \<and> imp_heap s' = n
           \<and> (\<exists>r. store s' n = Some r \<and> ptr r = m \<and> size_bytes r = sz)
           \<and> registry s' (n # ns) \<and> blocks s' ns = blocks s ns
           \<and> libc s' = Calloc (scast num) sz m # libc s"
proof -
  from mem_calloc_registry [OF assms, of num] obtain s' where
    s': "mem_calloc num sz m n s = Inr (m, s')" "registry s' (n # ns)"
    "blocks s' (n # ns) = (m, sz) # blocks s ns"
    "store s' n = Some \<lparr>next = NULL, prev = imp_heap s, ptr = m, size_bytes = sz\<rparr>"
    "memory_data s' = (memory_data s)
       \<lparr>allocations_count := allocations_count (memory_data s) + 1,
        heap_memory_added := heap_memory_added (memory_data s) + sz\<rparr>"
    "libc s' = Calloc (scast num) sz m # libc s"
    by blast
  from registry_tail [OF s'(2)] have "imp_heap s' = n" by simp
  with s' show ?thesis by (simp add: blocks_def)
qed

theorem zero_allocate_counts_element_size_witness:
  "registry init [] \<and> node_ok 11 init \<and> (0 :: size_t) < 8 \<and> (100 :: addr) \<noteq> NULL
   \<and> (\<exists>s'. mem_calloc 4 8 100 11 init = Inr (100, s')
          \<and> allocations_count (memory_data s') = 1
          \<and> heap_memory_added (memory_data s') = 8
          \<and> heap_memory_added (memory_data s') \<noteq> 4 * 8
          \<and> store s' 11 = Some \<lparr>next = NULL, prev = NULL, ptr = 100, size_bytes = 8\<rparr>)"
proof -
  have r: "registry init []" by (simp add: registry_def init_def)
  have n: "node_ok 11 init" by (simp add: node_ok_def init_def)
  have z: "(0 :: size_t) < 8" by simp
  have m: "(100 :: addr) \<noteq> NULL" by simp
  from zero_allocate_counts_element_size [OF r n z m, of 4] obtain s' where
    "mem_calloc 4 8 100 11 init = Inr (100, s')"
    "allocations_count (memory_data s') = allocations_count (memory_data init) + 1"
    "heap_memory_added (memory_data s') = heap_memory_added (memory_data init) + 8"
    "\<exists>r. store s' 11 = Some r \<and> ptr r = 100 \<and> size_bytes r = 8"
    by blast
  moreover have "mem_calloc 4 8 100 11 init =
      Inr (100, \<lparr>memory_data = \<lparr>allocations_count = 1, deallocations_count = 0,
                    stack_memory_added = 0, heap_memory_added = 8, heap_memory_freed = 0\<rparr>,
                  imp_heap = 11,
                  store = [11 \<mapsto> \<lparr>next = NULL, prev = NULL, ptr = 100, size_bytes = 8\<rparr>],
                  libc = [Calloc 4 8 100]\<rparr>)"
    by (simp add: mem_calloc_def link_node_def count_allocation_def init_def)
  ultimately show ?thesis using r n by auto
qed

text \<open>
  C4. A \<open>resize (p, sz)\<close> with \<open>sz > 0\<close> that succeeds (\<open>realloc\<close> answers \<open>m\<close>, not
  \<open>NULL\<close>) returns \<open>m\<close> and inserts one new record, holding \<open>m\<close> and \<open>sz\<close>, at the tail.
  It removes none: the records that were there, those for \<open>p\<close> among them, are all still
  there with their addresses and sizes, so the registry has one record more. This holds
  for every \<open>p\<close>, empty or not.
\<close>

theorem resize_keeps_old_records:
  assumes "registry s ns" and "node_ok n s" and "0 < sz" and "m \<noteq> NULL"
  shows "\<exists>s'. mem_realloc p sz m n s = Inr (m, s')
           \<and> registry s' (n # ns) \<and> n \<notin> set ns
           \<and> block (store s') n = (m, sz)
           \<and> blocks s' ns = blocks s ns
           \<and> length (n # ns) = length ns + 1"
proof -
  from mem_realloc_registry [OF assms, of p] obtain s' where
    s': "mem_realloc p sz m n s = Inr (m, s')" "registry s' (n # ns)"
    "blocks s' (n # ns) = (m, sz) # blocks s ns"
    by blast
  from s'(2) have "distinct (n # ns)"
    unfolding registry_def using path_distinct by blast
  with s' show ?thesis by (simp add: blocks_def)
qed

theorem resize_keeps_old_records_witness:
  "registry three_records [13, 12, 11] \<and> node_ok 14 three_records \<and> (0 :: size_t) < 64
   \<and> (300 :: addr) \<noteq> NULL
   \<and> (\<exists>s'. mem_realloc 100 64 300 14 three_records = Inr (300, s')
          \<and> registry s' [14, 13, 12, 11]
          \<and> blocks s' [14, 13, 12, 11] = [(300, 64), (100, 48), (200, 32), (100, 16)])"
proof -
  have r: "registry three_records [13, 12, 11]" by (rule three_records_registry)
  have n: "node_ok 14 three_records" by (simp add: node_ok_def three_records_def)
  have z: "(0 :: size_t) < 64" by simp
  have m: "(300 :: addr) \<noteq> NULL" by simp
  from resize_keeps_old_records [OF r n z m, of 100] obtain s' where
    "mem_realloc 100 64 300 14 three_records = Inr (300, s')"
    "registry s' [14, 13, 12, 11]" "block (store s') 14 = (300, 64)"
    "blocks s' [13, 12, 11] = blocks three_records [13, 12, 11]"
    by blast
  then have "mem_realloc 100 64 300 14 three_records = Inr (300, s')
          \<and> registry s' [14, 13, 12, 11]
          \<and> blocks s' [14, 13, 12, 11] = [(300, 64), (100, 48), (200, 32), (100, 16)]"
    using three_records_blocks by (simp add: blocks_def)
  with r n show ?thesis by auto
qed

text \<open>
  C5. The claim is that no two records of the registry ever hold the same address. The
  code breaks it: after \<open>allocate (16)\<close> answered 100 and \<open>resize (100, 32)\<close> answered
  100 (the block resized in place, as \<open>realloc\<close> may), the registry holds two records
  with the address 100, because \<open>_mem_realloc\<close> inserts the new record and leaves the old
  one.
\<close>

theorem resize_in_place_duplicates_address:
  "conforming_run [Allocate 16 100 11, Resize 100 32 100 12] init
   \<and> run [Allocate 16 100 11, Resize 100 32 100 12] init
       = Some (Inr ([Handle 100, Handle 100], two_for_one))
   \<and> registry two_for_one [12, 11]
   \<and> blocks two_for_one [12, 11] = [(100, 32), (100, 16)]
   \<and> \<not> distinct (map fst (blocks two_for_one [12, 11]))"
proof -
  have "registry two_for_one [12, 11]"
    by (auto simp: registry_def two_for_one_def)
  moreover have "blocks two_for_one [12, 11] = [(100, 32), (100, 16)]"
    by (simp add: blocks_def block_def two_for_one_def)
  ultimately show ?thesis
    using two_for_one_conforming two_for_one_reached by simp
qed

text \<open>
  C6, as stated, fails for the case it names. After \<open>allocate (16)\<close> answered 100,
  \<open>allocate (32)\<close> answered 200 and 100 was released, no record holds 100, and a second
  \<open>release (100)\<close> has no defined result: the scan finds nothing, and the call
  \<open>free (100)\<close> that follows in any case is made on a block that the allocator has taken
  back.
\<close>

theorem second_release_undefined:
  "run [Allocate 16 100 11, Allocate 32 200 12, Release 100] init
     = Some (Inr ([Handle 100, Handle 200, Signal 1], after_scenario))
   \<and> registry after_scenario [12]
   \<and> 100 \<notin> fst ` set (blocks after_scenario [12])
   \<and> mem_free_strict 100 after_scenario = Some (Inl BadFree)
   \<and> mem_free_strict 100 after_scenario
       \<noteq> Some (Inr (0, after_scenario\<lparr>libc := Free 100 # libc after_scenario\<rparr>))"
proof -
  have r: "registry after_scenario [12]"
    by (auto simp: registry_def after_scenario_def)
  have m: "100 \<notin> fst ` set (blocks after_scenario [12])"
    by (simp add: blocks_def block_def after_scenario_def)
  have "\<not> free_defined 100 (libc after_scenario)"
    by (simp add: free_defined_def after_scenario_def)
  with mem_free_miss [OF r m] have "mem_free_strict 100 after_scenario = Some (Inl BadFree)"
    by (simp add: mem_free_strict_def)
  with r m after_scenario_reached show ?thesis by simp
qed

text \<open>
  C6, amended. In a well-formed registry that holds no record with the address \<open>p\<close>,
  where \<open>p\<close> is \<open>NULL\<close> or a block that the allocator has handed out and not taken back,
  \<open>release (p)\<close> returns 0 (no match) and changes nothing of the state but the record of
  the library calls: \<open>free (p)\<close> is called all the same. The registry and the five
  counters are as before. Nothing is said of a block released before. (In the states
  that the five operations reach every block handed out has a record, so there the
  handle is \<open>NULL\<close>, as in the example; a block still handed out and without a record
  is one that the caller took from the allocator itself.)
\<close>

theorem release_unmatched:
  assumes "registry s ns" and "p \<notin> fst ` set (blocks s ns)" and "free_defined p (libc s)"
  shows "mem_free_strict p s = Some (Inr (0, s\<lparr>libc := Free p # libc s\<rparr>))"
  using mem_free_miss [OF assms(1,2)] assms(3) by (simp add: mem_free_strict_def)

theorem release_unmatched_witness:
  "registry after_scenario [12] \<and> NULL \<notin> fst ` set (blocks after_scenario [12])
   \<and> free_defined NULL (libc after_scenario)
   \<and> mem_free_strict NULL after_scenario
       = Some (Inr (0, after_scenario\<lparr>libc := Free NULL # libc after_scenario\<rparr>))"
proof -
  have r: "registry after_scenario [12]"
    by (auto simp: registry_def after_scenario_def)
  have m: "NULL \<notin> fst ` set (blocks after_scenario [12])"
    by (simp add: blocks_def block_def after_scenario_def)
  have d: "free_defined NULL (libc after_scenario)"
    by (simp add: free_defined_def)
  from release_unmatched [OF r m d] r m d show ?thesis by simp
qed

text \<open>
  C7. A request of size zero does nothing: \<open>allocate (0)\<close> and \<open>zero_allocate (num, 0)\<close>
  return \<open>NULL\<close>, \<open>resize (p, 0)\<close> returns \<open>p\<close>, and the state (registry, counters, and
  the record of the library calls: the allocator is not called) is the one before, whatever
  it was.
\<close>

theorem zero_size_noop:
  "mem_alloc 0 m n s = Inr (NULL, s) \<and> mem_calloc num 0 m n s = Inr (NULL, s)
   \<and> mem_realloc p 0 m n s = Inr (p, s)"
  by (simp add: mem_alloc_def mem_calloc_def mem_realloc_def)

text \<open>
  C8, as stated, fails: the counters are 64-bit and wrap around. After
  \<open>zero_allocate (0, 2 ^ 64 - 1)\<close> answered a block, \<open>heap_memory_added\<close> is
  \<open>2 ^ 64 - 1\<close> (the element size is added, whatever the number of elements), and
  \<open>allocate (16)\<close> takes it to 15.
\<close>

theorem counter_decreases_on_wrap:
  "conforming_run [Zero_allocate 0 0xFFFFFFFFFFFFFFFF 100 11] init
   \<and> run [Zero_allocate 0 0xFFFFFFFFFFFFFFFF 100 11] init = Some (Inr ([Handle 100], full_total))
   \<and> conforming (Allocate 16 200 12) full_total
   \<and> exec (Allocate 16 200 12) full_total = Some (Inr (Handle 200, wrapped))
   \<and> heap_memory_added (memory_data full_total) = 0xFFFFFFFFFFFFFFFF
   \<and> heap_memory_added (memory_data wrapped) = 15
   \<and> \<not> heap_memory_added (memory_data full_total) \<le> heap_memory_added (memory_data wrapped)"
proof -
  have "conforming_run [Zero_allocate 0 0xFFFFFFFFFFFFFFFF 100 11] init"
    by (simp add: run_simps)
  moreover have "conforming (Allocate 16 200 12) full_total"
    by (simp add: conforming_def node_ok_def full_total_def)
  ultimately show ?thesis
    using full_total_reached wrapped_step by (simp add: full_total_def wrapped_def)
qed

text \<open>
  C8, amended. Every operation, run on a well-formed registry (the \<open>HeapInfo\<close> it may
  need being allocated), returns and leaves each of the five counters greater than or
  equal to its value before, provided the additions it makes to the counters do not
  wrap around (\<open>no_wrap\<close>).
\<close>

theorem counters_monotone_without_wrap:
  assumes "registry s ns" and "record_ok c s" and "no_wrap c (blocks s ns) (memory_data s)"
  shows "\<exists>r s'. exec c s = Some (Inr (r, s'))
           \<and> allocations_count (memory_data s) \<le> allocations_count (memory_data s')
           \<and> deallocations_count (memory_data s) \<le> deallocations_count (memory_data s')
           \<and> heap_memory_added (memory_data s) \<le> heap_memory_added (memory_data s')
           \<and> heap_memory_freed (memory_data s) \<le> heap_memory_freed (memory_data s')
           \<and> stack_memory_added (memory_data s) \<le> stack_memory_added (memory_data s')"
proof -
  from exec_list_exec [OF assms(1,2)] obtain s' ns' where
    e: "exec c s = Some (Inr (fst (list_exec c (view s ns)), s'))"
    and v: "view s' ns' = snd (list_exec c (view s ns))"
    by blast
  have "list_exec c (blocks s ns, memory_data s, libc s)
          = (fst (list_exec c (view s ns)), (blocks s' ns', memory_data s', libc s'))"
    using v by (simp add: view_def)
  from list_exec_monotone [OF assms(3) this] e show ?thesis by blast
qed

theorem counters_monotone_without_wrap_witness:
  "registry three_records [13, 12, 11] \<and> record_ok (Release 100) three_records
   \<and> no_wrap (Release 100) (blocks three_records [13, 12, 11]) (memory_data three_records)
   \<and> (\<exists>r s'. exec (Release 100) three_records = Some (Inr (r, s'))
          \<and> deallocations_count (memory_data three_records) \<le> deallocations_count (memory_data s')
          \<and> heap_memory_freed (memory_data three_records) \<le> heap_memory_freed (memory_data s'))"
proof -
  have r: "registry three_records [13, 12, 11]" by (rule three_records_registry)
  have k: "record_ok (Release 100) three_records" by simp
  have w: "no_wrap (Release 100) (blocks three_records [13, 12, 11]) (memory_data three_records)"
    by (simp add: three_records_blocks) (simp add: three_records_def)
  from counters_monotone_without_wrap [OF r k w] r k w show ?thesis by blast
qed

text \<open>
  C9. In every state that a sequence of calls reaches from the initial state (the
  allocator conforming), \<open>release (NULL)\<close> returns 0 (no match) and changes nothing but the
  record of the library calls, to which \<open>free (NULL)\<close> is added: a record is inserted only
  for an address that is not \<open>NULL\<close>, so no record holds \<open>NULL\<close>.
\<close>

theorem release_null_unmatched:
  assumes "conforming_run cs init" and "run cs init = Some (Inr (rs, s))"
  shows "mem_free NULL s = Some (Inr (0, s\<lparr>libc := Free NULL # libc s\<rparr>))"
proof -
  from run_list_run [OF init_registry assms(1)] assms(2) obtain ns where
    r: "registry s ns" and v: "view s ns = snd (list_run cs (view init []))"
    by auto
  have "NULL \<notin> fst ` set (fst (view init []))" by (simp add: init_view)
  from list_run_no_null [OF this, of cs] have "NULL \<notin> fst ` set (fst (view s ns))"
    unfolding v .
  then have "NULL \<notin> fst ` set (blocks s ns)"
    by (simp add: view_def)
  with r show ?thesis by (rule mem_free_miss)
qed

theorem release_null_unmatched_witness:
  "conforming_run [Allocate 16 100 11, Allocate 32 200 12, Resize 100 48 100 13] init
   \<and> run [Allocate 16 100 11, Allocate 32 200 12, Resize 100 48 100 13] init
       = Some (Inr ([Handle 100, Handle 200, Handle 100], three_records))
   \<and> mem_free NULL three_records
       = Some (Inr (0, three_records\<lparr>libc := Free NULL # libc three_records\<rparr>))"
proof -
  have c: "conforming_run [Allocate 16 100 11, Allocate 32 200 12, Resize 100 48 100 13] init"
    by (simp add: conforming_def node_ok_def mem_alloc_def mem_realloc_def link_node_def
        count_allocation_def init_def)
  from release_null_unmatched [OF c three_records_reached] c three_records_reached
  show ?thesis by simp
qed

text \<open>
  C10, as stated, fails for the same reason: after \<open>zero_allocate (0, 2 ^ 64 - 1)\<close>
  answered 100, \<open>allocate (16)\<close> answered 200 and 100 was released,
  \<open>heap_memory_freed\<close> is \<open>2 ^ 64 - 1\<close> and \<open>heap_memory_added\<close> is 15.
\<close>

theorem freed_exceeds_added_on_wrap:
  "conforming_run [Zero_allocate 0 0xFFFFFFFFFFFFFFFF 100 11, Allocate 16 200 12, Release 100]
     init
   \<and> run [Zero_allocate 0 0xFFFFFFFFFFFFFFFF 100 11, Allocate 16 200 12, Release 100] init
       = Some (Inr ([Handle 100, Handle 200, Signal 1], overdrawn))
   \<and> heap_memory_freed (memory_data overdrawn) = 0xFFFFFFFFFFFFFFFF
   \<and> heap_memory_added (memory_data overdrawn) = 15
   \<and> \<not> heap_memory_freed (memory_data overdrawn) \<le> heap_memory_added (memory_data overdrawn)"
  using overdrawn_conforming overdrawn_reached by (simp add: overdrawn_def)

text \<open>
  C10, amended. Every sequence of calls, run from the initial state with a conforming
  allocator, returns, and afterwards the number of records in the registry is
  \<open>allocations_count\<close> minus \<open>deallocations_count\<close> modulo \<open>2 ^ 64\<close>. If fewer than
  \<open>2 ^ 64\<close> of the calls inserted a record, then \<open>deallocations_count \<le> allocations_count\<close>
  and the number of records is exactly the difference. If the sizes of the calls that
  inserted a record add up to less than \<open>2 ^ 64\<close>, then
  \<open>heap_memory_freed \<le> heap_memory_added\<close>.
\<close>

theorem counters_balance_without_wrap:
  assumes "conforming_run cs init"
  shows "\<exists>rs s ns. run cs init = Some (Inr (rs, s)) \<and> registry s ns
           \<and> allocations_count (memory_data s) - deallocations_count (memory_data s)
               = of_nat (length ns)
           \<and> (allocations cs < 2 ^ 64 \<longrightarrow>
                deallocations_count (memory_data s) \<le> allocations_count (memory_data s)
                \<and> length ns + unat (deallocations_count (memory_data s))
                    = unat (allocations_count (memory_data s)))
           \<and> (bytes_added cs < 2 ^ 64 \<longrightarrow>
                heap_memory_freed (memory_data s) \<le> heap_memory_added (memory_data s))"
proof -
  from run_list_run [OF init_registry assms(1)] obtain s ns where
    run: "run cs init = Some (Inr (fst (list_run cs (view init [])), s))"
    and r: "registry s ns" and v: "view s ns = snd (list_run cs (view init []))"
    by blast
  have "list_run cs (view init []) = (fst (list_run cs (view init [])), view s ns)"
    by (simp add: v)
  then have lr: "list_run cs ([], memory_data init, [])
      = (fst (list_run cs (view init [])), (blocks s ns, memory_data s, libc s))"
    by (simp only: init_view) (simp add: view_def)
  have "counts_balanced [] (memory_data init) 0" "bytes_balanced [] (memory_data init) 0"
    by (simp_all add: counts_balanced_def bytes_balanced_def total_def init_def)
  from list_run_balanced [OF this lr]
  have c: "counts_balanced (blocks s ns) (memory_data s) (allocations cs)"
    and y: "bytes_balanced (blocks s ns) (memory_data s) (bytes_added cs)"
    by simp_all
  from counts_balanced_modular [OF c] counts_balanced_le [OF c] bytes_balanced_le [OF y] run r
  show ?thesis
    by (intro exI [of _ "fst (list_run cs (view init []))"] exI [of _ s] exI [of _ ns])
       (simp add: blocks_def)
qed

theorem counters_balance_without_wrap_witness:
  "conforming_run [Allocate 16 100 11, Allocate 32 200 12, Release 100] init
   \<and> allocations [Allocate 16 100 11, Allocate 32 200 12, Release 100] < 2 ^ 64
   \<and> bytes_added [Allocate 16 100 11, Allocate 32 200 12, Release 100] < 2 ^ 64
   \<and> (\<exists>rs s ns. run [Allocate 16 100 11, Allocate 32 200 12, Release 100] init
                   = Some (Inr (rs, s)) \<and> registry s ns
           \<and> deallocations_count (memory_data s) \<le> allocations_count (memory_data s)
           \<and> heap_memory_freed (memory_data s) \<le> heap_memory_added (memory_data s)
           \<and> length ns + unat (deallocations_count (memory_data s))
               = unat (allocations_count (memory_data s)))"
proof -
  have c: "conforming_run [Allocate 16 100 11, Allocate 32 200 12, Release 100] init"
    by (rule after_scenario_conforming)
  have a: "allocations [Allocate 16 100 11, Allocate 32 200 12, Release 100] < 2 ^ 64"
    by (simp add: allocations_def)
  have b: "bytes_added [Allocate 16 100 11, Allocate 32 200 12, Release 100] < 2 ^ 64"
    by (simp add: bytes_added_def)
  from counters_balance_without_wrap [OF c] a b
  have "\<exists>rs s ns. run [Allocate 16 100 11, Allocate 32 200 12, Release 100] init
                   = Some (Inr (rs, s)) \<and> registry s ns
           \<and> deallocations_count (memory_data s) \<le> allocations_count (memory_data s)
           \<and> heap_memory_freed (memory_data s) \<le> heap_memory_added (memory_data s)
           \<and> length ns + unat (deallocations_count (memory_data s))
               = unat (allocations_count (memory_data s))"
    by blast
  with c a b show ?thesis by blast
qed

end
